theory Spec2Isabelle
  imports Main "HOL-Library.Word" "HOL-Library.Multiset"
begin

unbundle bit_operations_syntax

section \<open>Machine integers of the C++ sources\<close>

type_synonym u8 = "8 word"
type_synonym u16 = "16 word"
type_synonym u32 = "32 word"
type_synonym u64 = "64 word"

text \<open>\<^verbatim>\<open>UINT64_MAX\<close>, the "not started" sentinel of \<^verbatim>\<open>after\<close> and \<^verbatim>\<open>parent_anchor\<close>.\<close>

definition UINT64_MAX :: u64 where
  "UINT64_MAX = - 1"

section \<open>Expansion helpers (query_substring_bitmap_stream)\<close>

text \<open>
  \<^verbatim>\<open>pow4(n) = (n<=0) ? 1ULL : (1ULL << (2*n))\<close>. The C shift is defined for
  \<open>2 * n < 64\<close> only; \<open>push_bit\<close> gives 0 beyond that, and every theorem about
  \<open>pow4\<close> below keeps \<open>n \<le> 31\<close>.
\<close>

definition pow4 :: "int \<Rightarrow> u64" where
  "pow4 n = (if n \<le> 0 then 1 else push_bit (nat (2 * n)) 1)"

definition make_value :: "u64 \<Rightarrow> int \<Rightarrow> int \<Rightarrow> int \<Rightarrow> u64 \<Rightarrow> u64 \<Rightarrow> u64" where
  "make_value parentB k0 kout L left_idx right_idx =
     (let d = kout - k0; R = d - L
      in push_bit (nat (2 * (k0 + R))) left_idx OR push_bit (nat (2 * R)) parentB OR right_idx)"

text \<open>The expansion state is the triple \<open>(L, left_idx, right_idx)\<close> the C code passes by reference.\<close>

type_synonym exp_state = "u8 \<times> u64 \<times> u64"

definition init_state_first :: "int \<Rightarrow> exp_state" where
  "init_state_first d = (word_of_int d, 0, 0)"

text \<open>\<^verbatim>\<open>advance_state\<close> returns its boolean together with the updated references.\<close>

definition advance_state :: "int \<Rightarrow> exp_state \<Rightarrow> bool \<times> exp_state" where
  "advance_state d s =
     (case s of (L, left_idx, right_idx) \<Rightarrow>
        let Li = uint L; R = d - Li; right_lim = pow4 R; right_idx1 = right_idx + 1
        in if right_idx1 < right_lim then (True, (L, left_idx, right_idx1))
           else let left_lim = pow4 Li; left_idx1 = left_idx + 1
                in if left_idx1 < left_lim then (True, (L, left_idx1, 0))
                   else if Li = 0 then (False, (L, 0, 0))
                   else (True, (word_of_int (Li - 1), 0, 0)))"

text \<open>
  Termination measure of the stepping: the distance of an index to its limit, where an
  index at \<open>2^64 - 1\<close> (one wrapping increment away from 0) counts as one step further
  than index 0.
\<close>

definition idx_dist :: "u64 \<Rightarrow> u64 \<Rightarrow> nat" where
  "idx_dist x lim = (if x < lim then unat lim - 1 - unat x else if x = - 1 then unat lim else 0)"

text \<open>
  The states visited by stepping \<^verbatim>\<open>advance_state\<close> from \<open>s\<close> until it returns false:
  the per-parent loop of \<^verbatim>\<open>refill_lane\<close> without its buffer bound.
\<close>

function expand_states :: "int \<Rightarrow> exp_state \<Rightarrow> exp_state list" where
  "expand_states d s =
     (case advance_state d s of (ok, s') \<Rightarrow> if ok then s # expand_states d s' else [s])"
  by pat_completeness auto

lemma unat_plus1: "x \<noteq> - 1 \<Longrightarrow> unat (x + 1 :: u64) = Suc (unat x)"
  using unatSuc [of x] by (simp add: add.commute add_eq_0_iff)

lemma idx_dist_step:
  assumes "x + 1 < lim"
  shows "idx_dist (x + 1) lim < idx_dist x lim"
proof (cases "x = - 1")
  case True
  with assms have pos: "0 < lim" by simp
  then have "0 < unat lim" by (simp add: word_less_nat_alt)
  with True pos show ?thesis
    by (simp add: idx_dist_def)
next
  case False
  then have "unat (x + 1) = Suc (unat x)" by (rule unat_plus1)
  with assms False show ?thesis
    by (auto simp: idx_dist_def word_less_nat_alt)
qed

lemma dec_L: "uint (L::u8) \<noteq> 0 \<Longrightarrow> unat (L - 1) < unat L"
  by (metis less_eq_dec_self_iff_eq unsigned_0 verit_comp_simplify1(3) word_less_nat_alt)

termination expand_states
  apply (relation "measures [\<lambda>(d, (L, l, r)). unat L,
                              \<lambda>(d, (L, l, r)). idx_dist l (pow4 (uint L)),
                              \<lambda>(d, (L, l, r)). idx_dist r (pow4 (d - uint L))]")
   apply simp
  apply (auto simp: advance_state_def Let_def idx_dist_step dec_L split: if_splits prod.splits)
  done

declare expand_states.simps [simp del]

text \<open>
  The values the per-parent loop computes with \<^verbatim>\<open>make_value\<close>, one per visited state,
  for \<open>d = kout - k0\<close> and the start state of \<^verbatim>\<open>init_state_first\<close>.
\<close>

definition expand_children :: "u64 \<Rightarrow> int \<Rightarrow> int \<Rightarrow> u64 list" where
  "expand_children parentB k0 kout =
     map (\<lambda>(L, li, ri). make_value parentB k0 kout (uint L) li ri)
       (expand_states (kout - k0) (init_state_first (kout - k0)))"

text \<open>
  The documented enumeration: \<open>L\<close> from \<open>d\<close> down to 0, \<open>left_idx\<close> outermost over
  \<open>[0, 4^L)\<close>, \<open>right_idx\<close> innermost over \<open>[0, 4^(d-L))\<close>.
\<close>

definition state_block :: "nat \<Rightarrow> nat \<Rightarrow> exp_state list" where
  "state_block d L =
     concat (map (\<lambda>l. map (\<lambda>r. (of_nat L, of_nat l, of_nat r)) [0..<4 ^ (d - L)]) [0..<4 ^ L])"

definition all_states :: "nat \<Rightarrow> exp_state list" where
  "all_states d = concat (map (state_block d) (rev [0..<Suc d]))"

subsection \<open>The state machine visits the documented enumeration\<close>

lemma unat_of_nat64: "x < 2 ^ 64 \<Longrightarrow> unat (of_nat x :: u64) = x"
  by (simp add: unat_of_nat)

lemma pow4_of_nat: "0 \<le> n \<Longrightarrow> pow4 n = of_nat (4 ^ nat n)"
proof -
  assume a: "0 \<le> n"
  have "nat (2 * n) = 2 * nat n" using a by simp
  then have "(2::u64) ^ nat (2 * n) = 4 ^ nat n" by (simp add: power_mult)
  then show ?thesis using a by (auto simp: pow4_def push_bit_eq_mult)
qed

lemma pow4_bound: "n \<le> 31 \<Longrightarrow> (4::nat) ^ n < 2 ^ 64"
proof -
  assume "n \<le> 31"
  then have "(4::nat) ^ n \<le> 4 ^ 31" by (intro power_increasing) simp_all
  also have "\<dots> < 2 ^ 64" by simp
  finally show ?thesis .
qed

lemma unat_pow4: "0 \<le> n \<Longrightarrow> n \<le> 31 \<Longrightarrow> unat (pow4 n) = 4 ^ nat n"
  by (simp only: pow4_of_nat) (rule unat_of_nat64, rule pow4_bound, simp)

lemma inc_less_pow4:
  assumes "j < 4 ^ n" "n \<le> 31"
  shows "(of_nat j + 1 < pow4 (int n)) = (Suc j < 4 ^ n)"
proof -
  have b: "(4::nat) ^ n < 2 ^ 64" using assms(2) by (rule pow4_bound)
  have "of_nat j + 1 = (of_nat (Suc j) :: u64)" by simp
  moreover have "unat (of_nat (Suc j) :: u64) = Suc j"
    using assms(1) b by (intro unat_of_nat64) simp
  ultimately show ?thesis
    using assms(2) by (simp add: word_less_nat_alt unat_pow4 del: of_nat_Suc)
qed

lemma uint_of_nat8: "n \<le> 31 \<Longrightarrow> uint (of_nat n :: u8) = int n"
  by (simp add: uint_nat unat_of_nat)

lemma advance_state_wf:
  assumes "n \<le> D" "D \<le> 31" "i < 4 ^ n" "j < 4 ^ (D - n)"
  shows "advance_state (int D) (of_nat n, of_nat i, of_nat j) =
     (if Suc j < 4 ^ (D - n) then (True, (of_nat n, of_nat i, of_nat (Suc j)))
      else if Suc i < 4 ^ n then (True, (of_nat n, of_nat (Suc i), 0))
      else if n = 0 then (False, (of_nat n, 0, 0))
      else (True, (of_nat (n - 1), 0, 0)))"
proof -
  have n31: "n \<le> 31" using assms by simp
  have u: "uint (of_nat n :: u8) = int n" using n31 by (rule uint_of_nat8)
  have r: "int D - int n = int (D - n)" using assms(1) by simp
  have a: "(of_nat j + 1 < pow4 (int (D - n))) = (Suc j < 4 ^ (D - n))"
    using assms by (intro inc_less_pow4) simp_all
  have b: "(of_nat i + 1 < pow4 (int n)) = (Suc i < 4 ^ n)"
    using assms n31 by (intro inc_less_pow4) simp_all
  have c: "0 < n \<Longrightarrow> (of_nat n - 1 :: u8) = of_nat (n - Suc 0)"
    by (simp add: of_nat_diff)
  have s1: "(of_nat j + 1 :: u64) = of_nat (Suc j)" by simp
  have s2: "(of_nat i + 1 :: u64) = of_nat (Suc i)" by simp
  have d: "0 < n \<Longrightarrow> (word_of_int (int n - 1) :: u8) = of_nat (n - 1)"
    by (simp add: of_nat_diff)
  show ?thesis
    unfolding advance_state_def
    apply (simp only: prod.case Let_def u r a b)
    apply (simp only: d s1 s2 of_nat_eq_0_iff split: if_splits)
    apply (simp del: of_nat_Suc)
    apply simp
    done
qed

lemma expand_right_run:
  assumes "n \<le> D" "D \<le> 31" "i < 4 ^ n" "j < 4 ^ (D - n)"
  shows "expand_states (int D) (of_nat n, of_nat i, of_nat j) =
     map (\<lambda>r. (of_nat n, of_nat i, of_nat r)) [j..<4 ^ (D - n)] @
     (if Suc i < 4 ^ n then expand_states (int D) (of_nat n, of_nat (Suc i), 0)
      else if n = 0 then [] else expand_states (int D) (of_nat (n - 1), 0, 0))"
  using assms(4)
proof (induction "4 ^ (D - n) - j" arbitrary: j)
  case 0
  then show ?case by simp
next
  case (Suc k)
  have adv: "advance_state (int D) (of_nat n, of_nat i, of_nat j) =
     (if Suc j < 4 ^ (D - n) then (True, (of_nat n, of_nat i, of_nat (Suc j)))
      else if Suc i < 4 ^ n then (True, (of_nat n, of_nat (Suc i), 0))
      else if n = 0 then (False, (of_nat n, 0, 0))
      else (True, (of_nat (n - 1), 0, 0)))"
    using assms(1,2,3) Suc.prems by (rule advance_state_wf)
  show ?case
  proof (cases "Suc j < 4 ^ (D - n)")
    case True
    have k: "k = 4 ^ (D - n) - Suc j" using Suc.hyps(2) by simp
    have ih: "expand_states (int D) (of_nat n, of_nat i, of_nat (Suc j)) =
       map (\<lambda>r. (of_nat n, of_nat i, of_nat r)) [Suc j..<4 ^ (D - n)] @
       (if Suc i < 4 ^ n then expand_states (int D) (of_nat n, of_nat (Suc i), 0)
        else if n = 0 then [] else expand_states (int D) (of_nat (n - 1), 0, 0))"
      using Suc.hyps(1) [OF k True] .
    have upt: "[j..<4 ^ (D - n)] = j # [Suc j..<4 ^ (D - n)]"
      using Suc.prems by (simp add: upt_conv_Cons)
    show ?thesis
      by (subst expand_states.simps) (simp only: adv True if_True prod.case ih upt list.map append_Cons)
  next
    case False
    with Suc.prems have e: "Suc j = 4 ^ (D - n)" by simp
    have upt: "[j..<4 ^ (D - n)] = [j]"
      using e by (metis upt_rec lessI less_irrefl)
    show ?thesis
      by (subst expand_states.simps) (simp add: adv False upt del: of_nat_Suc)
  qed
qed

lemma expand_left_run:
  assumes "n \<le> D" "D \<le> 31" "i < 4 ^ n"
  shows "expand_states (int D) (of_nat n, of_nat i, 0) =
     concat (map (\<lambda>l. map (\<lambda>r. (of_nat n, of_nat l, of_nat r)) [0..<4 ^ (D - n)]) [i..<4 ^ n]) @
     (if n = 0 then [] else expand_states (int D) (of_nat (n - 1), 0, 0))"
  using assms(3)
proof (induction "4 ^ n - i" arbitrary: i)
  case 0
  then show ?case by simp
next
  case (Suc k)
  have run: "expand_states (int D) (of_nat n, of_nat i, of_nat 0) =
     map (\<lambda>r. (of_nat n, of_nat i, of_nat r)) [0..<4 ^ (D - n)] @
     (if Suc i < 4 ^ n then expand_states (int D) (of_nat n, of_nat (Suc i), 0)
      else if n = 0 then [] else expand_states (int D) (of_nat (n - 1), 0, 0))"
    using assms(1,2) Suc.prems by (rule expand_right_run) simp
  show ?case
  proof (cases "Suc i < 4 ^ n")
    case True
    have k: "k = 4 ^ n - Suc i" using Suc.hyps(2) by simp
    have upt: "[i..<4 ^ n] = i # [Suc i..<4 ^ n]"
      using Suc.prems by (simp add: upt_conv_Cons)
    show ?thesis
      using run Suc.hyps(1) [OF k True] True
      by (simp only: upt list.map concat.simps append_assoc if_True semiring_1_class.of_nat_0)
  next
    case False
    with Suc.prems have e: "Suc i = 4 ^ n" by simp
    have upt: "[i..<4 ^ n] = [i]"
      using e by (metis upt_rec lessI less_irrefl)
    show ?thesis
      using run False
      by (simp only: upt list.map concat.simps append_Nil2 if_False semiring_1_class.of_nat_0)
  qed
qed

lemma expand_from_L:
  assumes "D \<le> 31"
  shows "n \<le> D \<Longrightarrow> expand_states (int D) (of_nat n, 0, 0) =
     concat (map (state_block D) (rev [0..<Suc n]))"
proof (induction n)
  case 0
  have "expand_states (int D) (of_nat 0, of_nat 0, 0) =
     concat (map (\<lambda>l. map (\<lambda>r. (of_nat 0, of_nat l, of_nat r)) [0..<4 ^ (D - 0)]) [0..<4 ^ 0]) @
     (if (0::nat) = 0 then [] else expand_states (int D) (of_nat (0 - 1), 0, 0))"
    using assms by (intro expand_left_run) simp_all
  then show ?case by (simp add: state_block_def)
next
  case (Suc n)
  have "expand_states (int D) (of_nat (Suc n), of_nat 0, 0) =
     concat (map (\<lambda>l. map (\<lambda>r. (of_nat (Suc n), of_nat l, of_nat r)) [0..<4 ^ (D - Suc n)]) [0..<4 ^ Suc n]) @
     (if Suc n = 0 then [] else expand_states (int D) (of_nat (Suc n - 1), 0, 0))"
    using Suc.prems assms by (intro expand_left_run) simp_all
  then have a: "expand_states (int D) (of_nat (Suc n), 0, 0) =
     state_block D (Suc n) @ expand_states (int D) (of_nat n, 0, 0)"
    by (simp add: state_block_def del: of_nat_Suc upt_Suc power_Suc)
  have b: "expand_states (int D) (of_nat n, 0, 0) = concat (map (state_block D) (rev [0..<Suc n]))"
    using Suc by simp
  have c: "rev [0..<Suc (Suc n)] = Suc n # rev [0..<Suc n]" by simp
  show ?case
    by (simp only: a b c list.map concat.simps)
qed

lemma expand_states_init:
  assumes "0 \<le> d" "d \<le> 31"
  shows "expand_states d (init_state_first d) = all_states (nat d)"
proof -
  have D: "d = int (nat d)" "nat d \<le> 31"
    using assms by simp_all
  have "expand_states (int (nat d)) (of_nat (nat d), 0, 0) =
      concat (map (state_block (nat d)) (rev [0..<Suc (nat d)]))"
    using D(2) by (intro expand_from_L) simp_all
  then show ?thesis
    using assms(1) by (simp add: init_state_first_def all_states_def)
qed

lemma distinct_concat_map:
  "distinct xs \<Longrightarrow> (\<And>x. x \<in> set xs \<Longrightarrow> distinct (f x)) \<Longrightarrow>
   (\<And>x y. x \<in> set xs \<Longrightarrow> y \<in> set xs \<Longrightarrow> x \<noteq> y \<Longrightarrow> set (f x) \<inter> set (f y) = {}) \<Longrightarrow>
   distinct (concat (map f xs))"
proof (induction xs)
  case Nil
  then show ?case by simp
next
  case (Cons a xs)
  have "distinct (concat (map f xs))"
    using Cons by simp
  moreover have "distinct (f a)" using Cons.prems(2) by simp
  moreover have "set (f a) \<inter> (\<Union>x\<in>set xs. set (f x)) = {}"
    using Cons.prems(1,3) by fastforce
  ultimately show ?case by simp
qed

lemma of_nat64_inj:
  assumes "n \<le> 31" "a < 4 ^ n" "b < 4 ^ n" "(of_nat a :: u64) = of_nat b"
  shows "a = b"
proof -
  have "(4::nat) ^ n < 2 ^ 64" using assms(1) by (rule pow4_bound)
  then have "a < 2 ^ 64" "b < 2 ^ 64" using assms(2,3) by simp_all
  then show ?thesis using assms(4) by (metis unat_of_nat64)
qed

lemma of_nat8_inj: "a \<le> 31 \<Longrightarrow> b \<le> 31 \<Longrightarrow> (of_nat a :: u8) = of_nat b \<Longrightarrow> a = b"
  by (metis uint_of_nat8 of_nat_eq_iff)

lemma length_state_block: "L \<le> D \<Longrightarrow> length (state_block D L) = 4 ^ D"
proof -
  assume "L \<le> D"
  then have "(4::nat) ^ L * 4 ^ (D - L) = 4 ^ D"
    by (simp flip: power_add)
  then show ?thesis
    by (simp add: state_block_def length_concat comp_def sum_list_triv)
qed

lemma length_all_states: "length (all_states D) = Suc D * 4 ^ D"
proof -
  have "map length (map (state_block D) (rev [0..<Suc D])) = map (\<lambda>_. 4 ^ D) (rev [0..<Suc D])"
    unfolding map_map by (rule map_cong) (auto simp: length_state_block)
  then have "sum_list (map length (map (state_block D) (rev [0..<Suc D]))) = Suc D * 4 ^ D"
    by (simp only: sum_list_triv) simp
  then show ?thesis
    by (simp only: all_states_def length_concat)
qed

lemma distinct_state_block:
  assumes "L \<le> D" "D \<le> 31"
  shows "distinct (state_block D L)"
  unfolding state_block_def
proof (rule distinct_concat_map)
  show "distinct [0..<4 ^ L]" by simp
next
  fix l assume "l \<in> set [0..<4 ^ L]"
  have b: "D - L \<le> 31" using assms by simp
  show "distinct (map (\<lambda>r. (of_nat L :: u8, of_nat l :: u64, of_nat r :: u64)) [0..<4 ^ (D - L)])"
    by (auto simp: distinct_map inj_on_def intro: of_nat64_inj [OF b])
next
  fix l l' assume a: "l \<in> set [0..<4 ^ L]" "l' \<in> set [0..<4 ^ L]" "l \<noteq> l'"
  have b: "L \<le> 31" using assms by simp
  have "(of_nat l :: u64) \<noteq> of_nat l'"
    using a of_nat64_inj [OF b, of l l'] by auto
  then show "set (map (\<lambda>r. (of_nat L :: u8, of_nat l :: u64, of_nat r :: u64)) [0..<4 ^ (D - L)]) \<inter>
        set (map (\<lambda>r. (of_nat L, of_nat l', of_nat r)) [0..<4 ^ (D - L)]) = {}"
    by auto
qed

lemma fst_state_block: "s \<in> set (state_block D L) \<Longrightarrow> fst s = of_nat L"
  by (auto simp: state_block_def)

lemma distinct_all_states:
  assumes "D \<le> 31"
  shows "distinct (all_states D)"
  unfolding all_states_def
proof (rule distinct_concat_map)
  show "distinct (rev [0..<Suc D])" by simp
next
  fix L assume "L \<in> set (rev [0..<Suc D])"
  then show "distinct (state_block D L)"
    using assms by (intro distinct_state_block) auto
next
  fix L L' assume a: "L \<in> set (rev [0..<Suc D])" "L' \<in> set (rev [0..<Suc D])" "L \<noteq> L'"
  have "L \<le> 31" "L' \<le> 31" using a assms by auto
  then have "(of_nat L :: u8) \<noteq> of_nat L'"
    using a(3) of_nat8_inj [of L L'] by auto
  then show "set (state_block D L) \<inter> set (state_block D L') = {}"
    by (auto dest!: fst_state_block)
qed

subsection \<open>Exhaustion of the state machine\<close>

text \<open>
  \<open>exhausted_after d s n\<close>: stepping from \<open>s\<close>, the first \<open>n\<close> calls of
  \<^verbatim>\<open>advance_state\<close> return true and call number \<open>n + 1\<close> returns false.
\<close>

definition exhausted_after :: "int \<Rightarrow> exp_state \<Rightarrow> nat \<Rightarrow> bool" where
  "exhausted_after d s n \<longleftrightarrow>
     \<not> fst (advance_state d (((snd \<circ> advance_state d) ^^ n) s)) \<and>
     (\<forall>m<n. fst (advance_state d (((snd \<circ> advance_state d) ^^ m) s)))"

text \<open>Well-formed states: \<open>L \<le> d\<close>, \<open>left_idx < 4^L\<close>, \<open>right_idx < 4^(d-L)\<close>.\<close>

definition wf_state :: "int \<Rightarrow> exp_state \<Rightarrow> bool" where
  "wf_state d s = (case s of (L, left_idx, right_idx) \<Rightarrow>
     uint L \<le> d \<and> left_idx < pow4 (uint L) \<and> right_idx < pow4 (d - uint L))"

lemma advance_state_exhausts: "\<exists>n. exhausted_after d s n"
proof (induction d s rule: expand_states.induct)
  case (1 d s)
  obtain ok s' where adv: "advance_state d s = (ok, s')" by (cases "advance_state d s")
  show ?case
  proof (cases ok)
    case False
    with adv have "exhausted_after d s 0" by (simp add: exhausted_after_def)
    then show ?thesis ..
  next
    case True
    from "1.IH" [OF adv [symmetric] True] obtain n where n: "exhausted_after d s' n" ..
    have step: "\<And>m. ((snd \<circ> advance_state d) ^^ Suc m) s = ((snd \<circ> advance_state d) ^^ m) s'"
      using adv by (simp add: funpow_swap1)
    have "exhausted_after d s (Suc n)"
      unfolding exhausted_after_def
    proof (intro conjI allI impI)
      show "\<not> fst (advance_state d (((snd \<circ> advance_state d) ^^ Suc n) s))"
        using n unfolding step exhausted_after_def by blast
    next
      fix m assume "m < Suc n"
      show "fst (advance_state d (((snd \<circ> advance_state d) ^^ m) s))"
      proof (cases m)
        case 0
        then show ?thesis using adv True by simp
      next
        case (Suc m')
        with \<open>m < Suc n\<close> have "m' < n" by simp
        with n show ?thesis unfolding Suc step exhausted_after_def by blast
      qed
    qed
    then show ?thesis ..
  qed
qed


text \<open>
  Claim C10. For every \<open>d \<ge> 0\<close> and every well-formed expansion state, repeated
  application of \<^verbatim>\<open>advance_state\<close> returns false after finitely many steps: the
  per-parent loop of \<^verbatim>\<open>refill_lane\<close> cannot run forever on one anchor. (In the
  model the two hypotheses are not even needed: \<open>advance_state_exhausts\<close> holds for
  every state.)
\<close>

theorem advance_state_reaches_exhaustion:
  assumes "0 \<le> d" and "wf_state d s"
  shows "\<exists>n. exhausted_after d s n"
  by (rule advance_state_exhausts)

theorem advance_state_reaches_exhaustion_witness:
  "0 \<le> (1::int) \<and> wf_state 1 (1, 0, 0) \<and> (\<exists>n. exhausted_after 1 (1, 0, 0) n)"
proof -
  have h1: "0 \<le> (1::int)" by simp
  have h2: "wf_state 1 (1, 0, 0)" by (simp add: wf_state_def pow4_def)
  show ?thesis
    using h1 h2 advance_state_reaches_exhaustion [OF h1 h2] by blast
qed

subsection \<open>Coverage of the expansion\<close>

text \<open>
  Claim C2 as stated (exactly \<open>4^d\<close> distinct children, each once) fails: for the
  anchor \<open>B = 0\<close> and \<open>d = 1\<close> the machine emits 8 values, and the value 0 twice
  (once as \<open>L = 1, left_idx = 0\<close>, once as \<open>L = 0, right_idx = 0\<close>).
\<close>

theorem expansion_4d_distinct_counterexample:
  "length (expand_children 0 18 19) \<noteq> 4 ^ 1 \<and> \<not> distinct (expand_children 0 18 19)"
  by code_simp

text \<open>
  Claim C2, amended. For \<open>d = kout - k0\<close> with \<open>1 \<le> d \<le> 31\<close>, the machine started
  at \<open>(L = d, 0, 0)\<close> visits exactly the triples \<open>(L, left_idx, right_idx)\<close> with
  \<open>L\<close> from \<open>d\<close> down to 0, \<open>left_idx < 4^L\<close> outermost and
  \<open>right_idx < 4^(d-L)\<close> innermost, each triple exactly once, in that order; it emits
  one value per triple, \<open>(d + 1) * 4^d\<close> values in all, each
  \<open>(left_idx << 2 (k0 + R)) | (B << 2 R) | right_idx\<close> with \<open>R = d - L\<close>.
\<close>

theorem expansion_visits_every_split_once:
  assumes "1 \<le> kout - k0" and "kout - k0 \<le> 31"
  shows "expand_states (kout - k0) (init_state_first (kout - k0)) = all_states (nat (kout - k0))
    \<and> distinct (expand_states (kout - k0) (init_state_first (kout - k0)))
    \<and> expand_children B k0 kout =
        map (\<lambda>(L, li, ri).
               push_bit (nat (2 * (k0 + (kout - k0 - uint L)))) li
               OR push_bit (nat (2 * (kout - k0 - uint L))) B OR ri)
          (all_states (nat (kout - k0)))
    \<and> length (expand_children B k0 kout) = (nat (kout - k0) + 1) * 4 ^ nat (kout - k0)"
proof -
  have d0: "0 \<le> kout - k0" using assms(1) by simp
  have e: "expand_states (kout - k0) (init_state_first (kout - k0)) = all_states (nat (kout - k0))"
    using d0 assms(2) by (rule expand_states_init)
  have n: "nat (kout - k0) \<le> 31" using assms(2) by simp
  have "distinct (all_states (nat (kout - k0)))" using n by (rule distinct_all_states)
  moreover have "length (all_states (nat (kout - k0))) = (nat (kout - k0) + 1) * 4 ^ nat (kout - k0)"
    by (simp add: length_all_states)
  ultimately show ?thesis
    by (simp add: e expand_children_def make_value_def Let_def)
qed

theorem expansion_visits_every_split_once_witness:
  "(1::int) \<le> 19 - 18 \<and> (19::int) - 18 \<le> 31
   \<and> expand_states (19 - 18) (init_state_first (19 - 18)) = all_states (nat (19 - 18))
   \<and> length (expand_children 0 18 19) = (nat (19 - 18) + 1) * 4 ^ nat (19 - 18)"
proof -
  have h1: "(1::int) \<le> 19 - 18" by simp
  have h2: "(19::int) - 18 \<le> 31" by simp
  show ?thesis
    using h1 h2 expansion_visits_every_split_once [OF h1 h2, of 0] by blast
qed

section \<open>Base64url and little-endian packing\<close>

definition B64URL :: string where
  "B64URL = ''ABCDEFGHIJKLMNOPQRSTUVWXYZabcdefghijklmnopqrstuvwxyz0123456789-_''"

text \<open>
  The inner loop of \<^verbatim>\<open>b64url_encode\<close>: \<^verbatim>\<open>while (bits >= 6) { bits -= 6;
  out.push_back(B64URL[(buf >> bits) & 63]); }\<close>. The index is below 64, inside the table.
\<close>

function enc_drain :: "u32 \<Rightarrow> nat \<Rightarrow> string \<Rightarrow> nat \<times> string" where
  "enc_drain buf bits out =
     (if bits \<ge> 6
      then enc_drain buf (bits - 6) (out @ [B64URL ! unat (drop_bit (bits - 6) buf AND 63)])
      else (bits, out))"
  by pat_completeness auto
termination
  by (relation "measure (\<lambda>(buf, bits, out). bits)") auto

declare enc_drain.simps [simp del]

fun enc_loop :: "u32 \<Rightarrow> nat \<Rightarrow> string \<Rightarrow> u8 list \<Rightarrow> u32 \<times> nat \<times> string" where
  "enc_loop buf bits out [] = (buf, bits, out)"
| "enc_loop buf bits out (c # cs) =
     (let buf1 = push_bit 8 buf OR ucast c;
          (bits2, out2) = enc_drain buf1 (bits + 8) out
      in enc_loop buf1 bits2 out2 cs)"

definition b64url_encode :: "u8 list \<Rightarrow> string" where
  "b64url_encode inp =
     (case enc_loop 0 0 [] inp of (buf, bits, out) \<Rightarrow>
        if bits \<noteq> 0 then out @ [B64URL ! unat (push_bit (6 - bits) buf AND 63)] else out)"

text \<open>
  The decoding table: \<^verbatim>\<open>memset(T, -1, ...); for (i < 64) T[B64URL[i]] = i\<close>, indexed by the
  character's byte.
\<close>

definition b64_T :: "char \<Rightarrow> int" where
  "b64_T = fold (\<lambda>i T. T(B64URL ! i := int i)) [0..<64] (\<lambda>_. - 1)"

fun dec_loop :: "u32 \<Rightarrow> nat \<Rightarrow> u8 list \<Rightarrow> string \<Rightarrow> u8 list option" where
  "dec_loop buf bits out [] = Some out"
| "dec_loop buf bits out (ch # s) =
     (let v = b64_T ch
      in if v < 0 then None
         else let buf1 = push_bit 6 buf OR word_of_int v; bits1 = bits + 6
              in if bits1 \<ge> 8
                 then dec_loop buf1 (bits1 - 8) (out @ [ucast (drop_bit (bits1 - 8) buf1 AND 0xFF)]) s
                 else dec_loop buf1 bits1 out s)"

definition b64url_decode :: "string \<Rightarrow> u8 list option" where
  "b64url_decode s = dec_loop 0 0 [] s"

definition push_u16_le :: "u8 list \<Rightarrow> u16 \<Rightarrow> u8 list" where
  "push_u16_le b x = b @ [ucast (x AND 0xFF), ucast (drop_bit 8 x AND 0xFF)]"

definition push_u32_le :: "u8 list \<Rightarrow> u32 \<Rightarrow> u8 list" where
  "push_u32_le b x =
     b @ [ucast (x AND 0xFF), ucast (drop_bit 8 x AND 0xFF),
          ucast (drop_bit 16 x AND 0xFF), ucast (drop_bit 24 x AND 0xFF)]"

definition push_u64_le :: "u8 list \<Rightarrow> u64 \<Rightarrow> u8 list" where
  "push_u64_le b x = b @ map (\<lambda>i. ucast (drop_bit (8 * i) x AND 0xFF)) [0..<8]"

text \<open>
  Results of the cursor parser. \<open>BadCursor\<close> is the C function returning false;
  \<open>OutOfBounds\<close> marks a read of \<^verbatim>\<open>b[off]\<close> with \<open>off \<ge> b.size()\<close>, which the C
  code must never reach (undefined behaviour of \<^verbatim>\<open>std::vector::operator[]\<close>).
\<close>

datatype 'a parsed = Parsed 'a | BadCursor | OutOfBounds

fun bindp :: "'a parsed \<Rightarrow> ('a \<Rightarrow> 'b parsed) \<Rightarrow> 'b parsed" where
  "bindp (Parsed x) f = f x"
| "bindp BadCursor f = BadCursor"
| "bindp OutOfBounds f = OutOfBounds"

definition at :: "u8 list \<Rightarrow> nat \<Rightarrow> u8 parsed" where
  "at b off = (if off < length b then Parsed (b ! off) else OutOfBounds)"

definition read_u16_le :: "u8 list \<Rightarrow> nat \<Rightarrow> u16 parsed" where
  "read_u16_le b off =
     (if off + 2 > length b then BadCursor
      else bindp (at b off) (\<lambda>b0. bindp (at b (off + 1)) (\<lambda>b1.
             Parsed (ucast b0 OR push_bit 8 (ucast b1)))))"

definition read_u32_le :: "u8 list \<Rightarrow> nat \<Rightarrow> u32 parsed" where
  "read_u32_le b off =
     (if off + 4 > length b then BadCursor
      else bindp (at b off) (\<lambda>b0. bindp (at b (off + 1)) (\<lambda>b1.
           bindp (at b (off + 2)) (\<lambda>b2. bindp (at b (off + 3)) (\<lambda>b3.
             Parsed (ucast b0 OR push_bit 8 (ucast b1) OR push_bit 16 (ucast b2)
                     OR push_bit 24 (ucast b3)))))))"

fun le64_from :: "u8 list \<Rightarrow> nat \<Rightarrow> nat list \<Rightarrow> u64 \<Rightarrow> u64 parsed" where
  "le64_from b off [] v = Parsed v"
| "le64_from b off (i # is) v =
     bindp (at b (off + i)) (\<lambda>x. le64_from b off is (v OR push_bit (8 * i) (ucast x)))"

definition read_u64_le :: "u8 list \<Rightarrow> nat \<Rightarrow> u64 parsed" where
  "read_u64_le b off = (if off + 8 > length b then BadCursor else le64_from b off [0..<8] 0)"

subsection \<open>Base64url round trip\<close>

lemma and_63: "(x::'a::len word) AND 63 = take_bit 6 x"
  by (simp add: take_bit_eq_mask mask_eq_exp_minus_1)
lemma and_255: "(x::'a::len word) AND 0xFF = take_bit 8 x"
  by (simp add: take_bit_eq_mask mask_eq_exp_minus_1)

lemma enc_s1: "drop_bit 2 (push_bit 8 (X::u32) OR ucast (a::u8)) AND 63 = ucast (drop_bit 2 a)"
  apply (rule bit_word_eqI)
  apply (auto simp: bit_simps and_63 dest: bit_imp_le_length)
  done

lemma enc_s2: "drop_bit 4 (push_bit 8 (push_bit 8 (X::u32) OR ucast (a::u8)) OR ucast (b::u8)) AND 63
    = push_bit 4 (ucast (take_bit 2 a)) OR ucast (drop_bit 4 b)"
  apply (rule bit_word_eqI)
  apply (auto simp: bit_simps and_63 dest: bit_imp_le_length)
  done

lemma enc_s3: "drop_bit 6 (push_bit 8 (push_bit 8 (X::u32) OR ucast (b::u8)) OR ucast (c::u8)) AND 63
    = push_bit 2 (ucast (take_bit 4 b)) OR ucast (drop_bit 6 c)"
  apply (rule bit_word_eqI)
  apply (auto simp: bit_simps and_63 dest: bit_imp_le_length)
  done

lemma enc_s4: "drop_bit 0 (push_bit 8 (X::u32) OR ucast (c::u8)) AND 63 = ucast (take_bit 6 c)"
  apply (rule bit_word_eqI)
  apply (auto simp: bit_simps and_63 dest: bit_imp_le_length)
  done

lemma fold_table_nth:
  "distinct xs \<Longrightarrow> k \<le> length xs \<Longrightarrow> n < k \<Longrightarrow>
   fold (\<lambda>i T. T(xs ! i := f i)) [0..<k] T0 (xs ! n) = f n"
proof (induction k)
  case 0
  then show ?case by simp
next
  case (Suc k)
  show ?case
  proof (cases "n = k")
    case True
    then show ?thesis by simp
  next
    case False
    with Suc.prems have "n < k" "k < length xs" by simp_all
    with Suc.prems(1) have "xs ! n \<noteq> xs ! k"
      using False by (simp add: nth_eq_iff_index_eq)
    with Suc \<open>n < k\<close> show ?thesis by simp
  qed
qed

lemma fold_table_other:
  "ch \<notin> set xs \<Longrightarrow> k \<le> length xs \<Longrightarrow> fold (\<lambda>i T. T(xs ! i := f i)) [0..<k] T0 ch = T0 ch"
  by (induction k) auto

lemma fold_table_range:
  "k \<le> length xs \<Longrightarrow> fold (\<lambda>i T. T(xs ! i := f i)) [0..<k] T0 ch = T0 ch \<or>
     (\<exists>i<k. fold (\<lambda>i T. T(xs ! i := f i)) [0..<k] T0 ch = f i)"
  by (induction k) (auto simp: less_Suc_eq)

lemma distinct_B64URL: "distinct B64URL"
  by (simp add: B64URL_def)

lemma length_B64URL: "length B64URL = 64"
  by (simp add: B64URL_def)

lemma b64_T_nth: "n < 64 \<Longrightarrow> b64_T (B64URL ! n) = int n"
  unfolding b64_T_def
  by (rule fold_table_nth) (simp_all add: distinct_B64URL length_B64URL)

lemma b64_T_range: "b64_T ch = - 1 \<or> (0 \<le> b64_T ch \<and> b64_T ch < 64)"
  using fold_table_range [where k = 64 and xs = B64URL and ?T0.0 = "\<lambda>_. - 1" and ch = ch and f = int]
  by (auto simp: b64_T_def length_B64URL)

lemma unat_and_63: "unat ((x::u32) AND 63) < 64"
proof -
  have "take_bit 6 (unat x) < 2 ^ 6" by (rule take_bit_nat_less_exp)
  then show ?thesis by (simp add: and_63 unsigned_take_bit_eq)
qed

lemma T_of_sextet: "b64_T (B64URL ! unat ((x::u32) AND 63)) = uint (x AND 63)"
  unfolding uint_nat by (rule b64_T_nth [OF unat_and_63])

lemma enc_drain_acc:
  "enc_drain buf bits out = (fst (enc_drain buf bits []), out @ snd (enc_drain buf bits []))"
proof (induction bits arbitrary: out rule: less_induct)
  case (less bits)
  show ?case
  proof (cases "6 \<le> bits")
    case True
    then have lt: "bits - 6 < bits" by simp
    let ?ch = "B64URL ! unat (drop_bit (bits - 6) buf AND 63)"
    have a: "enc_drain buf bits out = enc_drain buf (bits - 6) (out @ [?ch])"
      using True by (subst enc_drain.simps) simp
    have b: "enc_drain buf bits [] = enc_drain buf (bits - 6) [?ch]"
      using True by (subst enc_drain.simps) simp
    have c: "enc_drain buf (bits - 6) (out @ [?ch])
        = (fst (enc_drain buf (bits - 6) []), (out @ [?ch]) @ snd (enc_drain buf (bits - 6) []))"
      by (rule less.IH [OF lt])
    have d: "enc_drain buf (bits - 6) [?ch]
        = (fst (enc_drain buf (bits - 6) []), [?ch] @ snd (enc_drain buf (bits - 6) []))"
      by (rule less.IH [OF lt])
    show ?thesis
      unfolding a b c d by simp
  next
    case False
    then show ?thesis by (subst (1 2 3) enc_drain.simps) simp
  qed
qed

lemma enc_loop_acc:
  "enc_loop buf bits out bs =
     (case enc_loop buf bits [] bs of (buf', bits', out') \<Rightarrow> (buf', bits', out @ out'))"
proof (induction bs arbitrary: buf bits out)
  case Nil
  then show ?case by simp
next
  case (Cons c cs)
  let ?b = "push_bit 8 buf OR ucast c"
  obtain n o1 where d: "enc_drain ?b (bits + 8) [] = (n, o1)" by (cases "enc_drain ?b (bits + 8) []")
  have d': "enc_drain ?b (bits + 8) out = (n, out @ o1)"
    using enc_drain_acc [of ?b "bits + 8" out] d by simp
  obtain bf nf outf where e: "enc_loop ?b n [] cs = (bf, nf, outf)"
    by (cases "enc_loop ?b n [] cs")
  have e1: "enc_loop ?b n (out @ o1) cs = (bf, nf, (out @ o1) @ outf)"
    using Cons.IH [of ?b n "out @ o1"] e by simp
  have e2: "enc_loop ?b n o1 cs = (bf, nf, o1 @ outf)"
    using Cons.IH [of ?b n o1] e by simp
  show ?case
    by (simp add: d d' e1 e2 Let_def)
qed

text \<open>The encoder from a given accumulator state, with the final partial sextet.\<close>

definition enc_full :: "u32 \<Rightarrow> nat \<Rightarrow> u8 list \<Rightarrow> string" where
  "enc_full X bits bs =
     (case enc_loop X bits [] bs of (buf, bits', out) \<Rightarrow>
        if bits' \<noteq> 0 then out @ [B64URL ! unat (push_bit (6 - bits') buf AND 63)] else out)"

lemma b64url_encode_full: "b64url_encode inp = enc_full 0 0 inp"
  by (simp add: b64url_encode_def enc_full_def)

lemma enc_drain_8: "enc_drain b 8 out = (2, out @ [B64URL ! unat (drop_bit 2 b AND 63)])"
  by (subst enc_drain.simps, simp, subst enc_drain.simps, simp)

lemma enc_drain_10: "enc_drain b 10 out = (4, out @ [B64URL ! unat (drop_bit 4 b AND 63)])"
  by (subst enc_drain.simps, simp, subst enc_drain.simps, simp)

lemma enc_drain_12: "enc_drain b 12 out =
   (0, out @ [B64URL ! unat (drop_bit 6 b AND 63), B64URL ! unat (drop_bit 0 b AND 63)])"
  by (subst enc_drain.simps, simp, subst enc_drain.simps, simp, subst enc_drain.simps, simp)

lemma enc_full_step3:
  "enc_full X 0 (a # b # c # rest) =
     [B64URL ! unat (drop_bit 2 (push_bit 8 X OR ucast a) AND 63),
      B64URL ! unat (drop_bit 4 (push_bit 8 (push_bit 8 X OR ucast a) OR ucast b) AND 63),
      B64URL ! unat (drop_bit 6 (push_bit 8 (push_bit 8 (push_bit 8 X OR ucast a) OR ucast b) OR ucast c) AND 63),
      B64URL ! unat (drop_bit 0 (push_bit 8 (push_bit 8 (push_bit 8 X OR ucast a) OR ucast b) OR ucast c) AND 63)]
     @ enc_full (push_bit 8 (push_bit 8 (push_bit 8 X OR ucast a) OR ucast b) OR ucast c) 0 rest"
  apply (simp only: enc_full_def enc_loop.simps Let_def add_0 enc_drain_8 prod.case)
  apply (simp only: numeral_Bit0 [symmetric] numeral_plus_numeral semiring_norm enc_drain_10 enc_drain_12 prod.case)
  apply (subst enc_loop_acc)
  apply (simp split: prod.splits del: drop_bit_0)
  done

lemma enc_full_1:
  "enc_full X 0 [a] =
     [B64URL ! unat (drop_bit 2 (push_bit 8 X OR ucast a) AND 63),
      B64URL ! unat (push_bit 4 (push_bit 8 X OR ucast a) AND 63)]"
  by (simp add: enc_full_def enc_drain_8)

lemma enc_full_2:
  "enc_full X 0 [a, b] =
     [B64URL ! unat (drop_bit 2 (push_bit 8 X OR ucast a) AND 63),
      B64URL ! unat (drop_bit 4 (push_bit 8 (push_bit 8 X OR ucast a) OR ucast b) AND 63),
      B64URL ! unat (push_bit 2 (push_bit 8 (push_bit 8 X OR ucast a) OR ucast b) AND 63)]"
  by (simp add: enc_full_def enc_drain_8 enc_drain_10)

lemma enc_full_0: "enc_full X 0 [] = []"
  by (simp add: enc_full_def)

lemma enc_t2: "push_bit 4 (push_bit 8 (X::u32) OR ucast (a::u8)) AND 63 = push_bit 4 (ucast (take_bit 2 a))"
  apply (rule bit_word_eqI)
  apply (auto simp: bit_simps and_63 dest: bit_imp_le_length)
  done

lemma enc_t3: "push_bit 2 (push_bit 8 (X::u32) OR ucast (b::u8)) AND 63 = push_bit 2 (ucast (take_bit 4 b))"
  apply (rule bit_word_eqI)
  apply (auto simp: bit_simps and_63 dest: bit_imp_le_length)
  done

lemma suc2_diff: "\<not> n < 2 \<Longrightarrow> Suc (Suc (n - 2)) = n" "2 \<le> n \<Longrightarrow> Suc (Suc (n - 2)) = n"
  by simp_all

lemma dec_b1: "ucast (drop_bit 4 (push_bit 6 (push_bit 6 (Y::u32) OR ucast (drop_bit 2 (a::u8)))
     OR (push_bit 4 (ucast (take_bit 2 a)) OR ucast (drop_bit 4 (b::u8)))) AND 0xFF) = a"
  apply (rule bit_word_eqI)
  apply (auto simp: bit_simps and_255 suc2_diff dest: bit_imp_le_length)
  done

lemma dec_b1t: "ucast (drop_bit 4 (push_bit 6 (push_bit 6 (Y::u32) OR ucast (drop_bit 2 (a::u8)))
     OR push_bit 4 (ucast (take_bit 2 a))) AND 0xFF) = a"
  apply (rule bit_word_eqI)
  apply (auto simp: bit_simps and_255 suc2_diff dest: bit_imp_le_length)
  done

lemma dec_b2: "ucast (drop_bit 2 (push_bit 6 (push_bit 6 (Y::u32) OR (push_bit 4 (ucast (take_bit 2 (a::u8))) OR ucast (drop_bit 4 (b::u8))))
     OR (push_bit 2 (ucast (take_bit 4 b)) OR ucast (drop_bit 6 (c::u8)))) AND 0xFF) = b"
  apply (rule bit_word_eqI)
  apply (auto simp: bit_simps and_255 dest: bit_imp_le_length)
  done

lemma dec_b2t: "ucast (drop_bit 2 (push_bit 6 (push_bit 6 (Y::u32) OR (push_bit 4 (ucast (take_bit 2 (a::u8))) OR ucast (drop_bit 4 (b::u8))))
     OR push_bit 2 (ucast (take_bit 4 b))) AND 0xFF) = b"
  apply (rule bit_word_eqI)
  apply (auto simp: bit_simps and_255 dest: bit_imp_le_length)
  done

lemma dec_b3: "ucast (drop_bit 0 (push_bit 6 (push_bit 6 (Y::u32) OR (push_bit 2 (ucast (take_bit 4 (b::u8))) OR ucast (drop_bit 6 (c::u8))))
     OR ucast (take_bit 6 c)) AND 0xFF) = c"
  apply (rule bit_word_eqI)
  apply (auto simp: bit_simps and_255 dest: bit_imp_le_length)
  done

lemma dec_step_0:
  "dec_loop Y 0 out (B64URL ! unat ((e::u32) AND 63) # s) =
   dec_loop (push_bit 6 Y OR (e AND 63)) 6 out s"
  by (simp add: T_of_sextet Let_def)

lemma dec_step_6:
  "dec_loop Y 6 out (B64URL ! unat ((e::u32) AND 63) # s) =
   dec_loop (push_bit 6 Y OR (e AND 63)) 4
     (out @ [ucast (drop_bit 4 (push_bit 6 Y OR (e AND 63)) AND 0xFF)]) s"
  by (simp add: T_of_sextet Let_def)

lemma dec_step_4:
  "dec_loop Y 4 out (B64URL ! unat ((e::u32) AND 63) # s) =
   dec_loop (push_bit 6 Y OR (e AND 63)) 2
     (out @ [ucast (drop_bit 2 (push_bit 6 Y OR (e AND 63)) AND 0xFF)]) s"
  by (simp add: T_of_sextet Let_def)

lemma dec_step_2:
  "dec_loop Y 2 out (B64URL ! unat ((e::u32) AND 63) # s) =
   dec_loop (push_bit 6 Y OR (e AND 63)) 0
     (out @ [ucast (drop_bit 0 (push_bit 6 Y OR (e AND 63)) AND 0xFF)]) s"
  by (simp add: T_of_sextet Let_def)

lemma dec_group3:
  "dec_loop Y 0 out
     ([B64URL ! unat (drop_bit 2 (push_bit 8 (X::u32) OR ucast (a::u8)) AND 63),
      B64URL ! unat (drop_bit 4 (push_bit 8 (push_bit 8 X OR ucast a) OR ucast (b::u8)) AND 63),
      B64URL ! unat (drop_bit 6 (push_bit 8 (push_bit 8 (push_bit 8 X OR ucast a) OR ucast b) OR ucast (c::u8)) AND 63),
      B64URL ! unat (drop_bit 0 (push_bit 8 (push_bit 8 (push_bit 8 X OR ucast a) OR ucast b) OR ucast c) AND 63)]
     @ s) =
   dec_loop (push_bit 6 (push_bit 6 (push_bit 6 (push_bit 6 Y OR ucast (drop_bit 2 a))
        OR (push_bit 4 (ucast (take_bit 2 a)) OR ucast (drop_bit 4 b)))
        OR (push_bit 2 (ucast (take_bit 4 b)) OR ucast (drop_bit 6 c))) OR ucast (take_bit 6 c))
     0 (out @ [a, b, c]) s"
  apply (simp only: append_Cons append_Nil dec_step_0 dec_step_6 dec_step_4 dec_step_2)
  apply (simp only: enc_s1 enc_s2 enc_s3 enc_s4)
  apply (simp only: dec_b1 dec_b2 dec_b3 append_assoc append_Cons append_Nil)
  done

lemma dec_tail1:
  "dec_loop Y 0 out
     [B64URL ! unat (drop_bit 2 (push_bit 8 (X::u32) OR ucast (a::u8)) AND 63),
      B64URL ! unat (push_bit 4 (push_bit 8 X OR ucast a) AND 63)] = Some (out @ [a])"
  apply (simp only: dec_step_0 dec_step_6)
  apply (simp only: enc_s1 enc_t2)
  apply (simp only: dec_b1t dec_loop.simps)
  done

lemma dec_tail2:
  "dec_loop Y 0 out
     [B64URL ! unat (drop_bit 2 (push_bit 8 (X::u32) OR ucast (a::u8)) AND 63),
      B64URL ! unat (drop_bit 4 (push_bit 8 (push_bit 8 X OR ucast a) OR ucast (b::u8)) AND 63),
      B64URL ! unat (push_bit 2 (push_bit 8 (push_bit 8 X OR ucast a) OR ucast b) AND 63)]
    = Some (out @ [a, b])"
  apply (simp only: dec_step_0 dec_step_6 dec_step_4)
  apply (simp only: enc_s1 enc_s2 enc_t3)
  apply (simp only: dec_b1 dec_b2t dec_loop.simps append_assoc append_Cons append_Nil)
  done

text \<open>Complete three-byte groups of the input; its induction rule splits a list by threes.\<close>

fun groups3 :: "'a list \<Rightarrow> nat" where
  "groups3 [] = 0"
| "groups3 [a] = 0"
| "groups3 [a, b] = 0"
| "groups3 (a # b # c # rest) = Suc (groups3 rest)"

lemma dec_enc_full: "dec_loop Y 0 out (enc_full X 0 bs) = Some (out @ bs)"
proof (induction bs arbitrary: X Y out rule: groups3.induct)
  case 1
  show ?case by (simp add: enc_full_0)
next
  case (2 a)
  show ?case by (simp only: enc_full_1 dec_tail1)
next
  case (3 a b)
  show ?case by (simp only: enc_full_2 dec_tail2)
next
  case (4 a b c rest)
  show ?case
    by (simp only: enc_full_step3 dec_group3 "4.IH") simp
qed

lemma b64url_roundtrip: "b64url_decode (b64url_encode bs) = Some bs"
  using dec_enc_full [of 0 "[]" 0 bs] by (simp add: b64url_decode_def b64url_encode_full)

section \<open>Window cursor BCW2\<close>

record LaneState =
  st_active :: bool
  st_perm_pos :: u32
  st_mode :: u8
  st_after :: u64
  st_parent_anchor :: u64
  st_child_present :: bool
  st_L :: u8
  st_left_idx :: u64
  st_right_idx :: u64

text \<open>The member initialisers of \<^verbatim>\<open>struct LaneState\<close>.\<close>

definition LaneState_init :: LaneState where
  "LaneState_init =
     \<lparr>st_active = False, st_perm_pos = 0, st_mode = 0, st_after = UINT64_MAX,
      st_parent_anchor = UINT64_MAX, st_child_present = False, st_L = 0,
      st_left_idx = 0, st_right_idx = 0\<rparr>"

record WindowCursor =
  c_present :: bool
  c_flags :: u8
  c_k0 :: u8
  c_kout :: u8
  c_d :: u8
  c_numShards :: u32
  c_seed :: u64
  c_next_perm_pos :: u32
  c_window :: u16
  c_burst :: u16
  c_lanes :: "LaneState list"

text \<open>The body of the per-lane loop of \<^verbatim>\<open>make_cursor_bcw2\<close>.\<close>

definition push_lane :: "u8 list \<Rightarrow> LaneState \<Rightarrow> u8 list" where
  "push_lane b ln =
     (let b1 = b @ [if st_active ln then 1 else 0]
      in if \<not> st_active ln then b1
         else let b2 = push_u32_le b1 (st_perm_pos ln); b3 = b2 @ [st_mode ln]
              in if st_mode ln = 0 then push_u64_le b3 (st_after ln)
                 else let b4 = push_u64_le b3 (st_parent_anchor ln);
                          b5 = b4 @ [if st_child_present ln then 1 else 0]
                      in if st_child_present ln
                         then push_u64_le (push_u64_le (b5 @ [st_L ln]) (st_left_idx ln))
                                (st_right_idx ln)
                         else b5)"

definition cursor_bytes :: "WindowCursor \<Rightarrow> u8 list" where
  "cursor_bytes c =
     (let b = [of_char CHR ''B'', of_char CHR ''C'', of_char CHR ''W'', of_char CHR ''2''];
          b = b @ [c_flags c];
          b = b @ [c_k0 c, c_kout c, c_d c];
          b = push_u32_le b (c_numShards c);
          b = push_u64_le b (c_seed c);
          b = push_u32_le b (c_next_perm_pos c);
          b = push_u16_le b (c_window c);
          b = push_u16_le b (c_burst c);
          b = push_u16_le b (of_nat (length (c_lanes c)))
      in fold (\<lambda>ln b. push_lane b ln) (c_lanes c) b)"

definition make_cursor_bcw2 :: "WindowCursor \<Rightarrow> string" where
  "make_cursor_bcw2 c = b64url_encode (cursor_bytes c)"

text \<open>
  One iteration of the lane loop of \<^verbatim>\<open>parse_cursor_bcw2\<close>, on a lane freshly
  default-constructed by \<^verbatim>\<open>c.lanes.resize(lane_count)\<close>; it returns the lane and the
  advanced offset.
\<close>

definition parse_lane :: "u8 list \<Rightarrow> nat \<Rightarrow> (LaneState \<times> nat) parsed" where
  "parse_lane b off =
     (if off + 1 > length b then BadCursor
      else bindp (at b off) (\<lambda>a.
        let off1 = off + 1; ln = LaneState_init\<lparr>st_active := (a \<noteq> 0)\<rparr>
        in if \<not> st_active ln then Parsed (ln, off1)
           else if off1 + 4 + 1 > length b then BadCursor
           else bindp (read_u32_le b off1) (\<lambda>pp.
             let off2 = off1 + 4
             in bindp (at b off2) (\<lambda>m.
               let off3 = off2 + 1; ln1 = ln\<lparr>st_perm_pos := pp, st_mode := m\<rparr>
               in if m = 0
                  then bindp (read_u64_le b off3) (\<lambda>af. Parsed (ln1\<lparr>st_after := af\<rparr>, off3 + 8))
                  else bindp (read_u64_le b off3) (\<lambda>pa.
                    let off4 = off3 + 8
                    in if off4 + 1 > length b then BadCursor
                       else bindp (at b off4) (\<lambda>cp.
                         let off5 = off4 + 1;
                             ln2 = ln1\<lparr>st_parent_anchor := pa, st_child_present := (cp \<noteq> 0)\<rparr>
                         in if st_child_present ln2
                            then if off5 + 1 > length b then BadCursor
                                 else bindp (at b off5) (\<lambda>l.
                                   let off6 = off5 + 1
                                   in bindp (read_u64_le b off6) (\<lambda>li.
                                        bindp (read_u64_le b (off6 + 8)) (\<lambda>ri.
                                          Parsed (ln2\<lparr>st_L := l, st_left_idx := li,
                                                       st_right_idx := ri\<rparr>, off6 + 8 + 8))))
                            else Parsed (ln2\<lparr>st_L := 0, st_left_idx := 0, st_right_idx := 0\<rparr>,
                                         off5)))))))"

primrec parse_lanes :: "u8 list \<Rightarrow> nat \<Rightarrow> nat \<Rightarrow> LaneState list parsed" where
  "parse_lanes b 0 off = Parsed []"
| "parse_lanes b (Suc n) off =
     bindp (parse_lane b off) (\<lambda>(ln, off').
       bindp (parse_lanes b n off') (\<lambda>lns. Parsed (ln # lns)))"

definition parse_cursor_bcw2 :: "string \<Rightarrow> WindowCursor parsed" where
  "parse_cursor_bcw2 token =
     (case b64url_decode token of
        None \<Rightarrow> BadCursor
      | Some b \<Rightarrow>
          if length b < 4 + 1 + 3 + 4 + 8 + 4 + 2 + 2 + 2 then BadCursor
          else bindp (at b 0) (\<lambda>m0. bindp (at b 1) (\<lambda>m1.
               bindp (at b 2) (\<lambda>m2. bindp (at b 3) (\<lambda>m3.
               if \<not> (m0 = of_char CHR ''B'' \<and> m1 = of_char CHR ''C''
                      \<and> m2 = of_char CHR ''W'' \<and> m3 = of_char CHR ''2'') then BadCursor
               else bindp (at b 4) (\<lambda>fl. bindp (at b 5) (\<lambda>k0. bindp (at b 6) (\<lambda>kout.
                    bindp (at b 7) (\<lambda>d.
                    bindp (read_u32_le b 8) (\<lambda>ns. bindp (read_u64_le b 12) (\<lambda>sd.
                    bindp (read_u32_le b 20) (\<lambda>npp.
                    bindp (read_u16_le b 24) (\<lambda>w. bindp (read_u16_le b 26) (\<lambda>bu.
                    bindp (read_u16_le b 28) (\<lambda>lane_count.
                    bindp (parse_lanes b (unat lane_count) 30) (\<lambda>lanes.
                      Parsed \<lparr>c_present = True, c_flags = fl, c_k0 = k0, c_kout = kout,
                              c_d = d, c_numShards = ns, c_seed = sd, c_next_perm_pos = npp,
                              c_window = w, c_burst = bu, c_lanes = lanes\<rparr>))))))))))))))))"

text \<open>
  Structural validity: the fields a lane does not serialize under its
  \<open>active\<close>/\<open>mode\<close>/\<open>child_present\<close> flags hold their initial values, and the lane
  count fits the \<^verbatim>\<open>u16\<close> it is written into.
\<close>

definition valid_lane :: "LaneState \<Rightarrow> bool" where
  "valid_lane ln =
     (if \<not> st_active ln then ln = LaneState_init
      else if st_mode ln = 0
      then ln = LaneState_init\<lparr>st_active := True, st_perm_pos := st_perm_pos ln,
                               st_after := st_after ln\<rparr>
      else st_after ln = UINT64_MAX
           \<and> (st_child_present ln \<or> (st_L ln = 0 \<and> st_left_idx ln = 0 \<and> st_right_idx ln = 0)))"

definition valid_cursor :: "WindowCursor \<Rightarrow> bool" where
  "valid_cursor c = (length (c_lanes c) < 2 ^ 16 \<and> list_all valid_lane (c_lanes c))"

subsection \<open>Little-endian fields read back what was pushed\<close>

lemma bit_byte64:
  "bit (push_bit (8 * i) (ucast (ucast (drop_bit (8 * i) (x::u64) AND 0xFF) :: u8)) :: u64) n
     \<longleftrightarrow> 8 * i \<le> n \<and> n < 8 * i + 8 \<and> bit x n"
  by (auto simp: bit_simps and_255 dest: bit_imp_le_length)

lemma bit_byte32:
  "bit (push_bit (8 * i) (ucast (ucast (drop_bit (8 * i) (x::u32) AND 0xFF) :: u8)) :: u32) n
     \<longleftrightarrow> 8 * i \<le> n \<and> n < 8 * i + 8 \<and> bit x n"
  by (auto simp: bit_simps and_255 dest: bit_imp_le_length)

lemma bit_byte16:
  "bit (push_bit (8 * i) (ucast (ucast (drop_bit (8 * i) (x::u16) AND 0xFF) :: u8)) :: u16) n
     \<longleftrightarrow> 8 * i \<le> n \<and> n < 8 * i + 8 \<and> bit x n"
  by (auto simp: bit_simps and_255 dest: bit_imp_le_length)

lemma le16_id:
  "push_bit (8 * 0) (ucast (ucast (drop_bit (8 * 0) (x::u16) AND 0xFF) :: u8))
   OR push_bit (8 * 1) (ucast (ucast (drop_bit (8 * 1) x AND 0xFF) :: u8)) = x"
  apply (rule bit_word_eqI)
  apply (simp only: bit_or_iff bit_byte16)
  apply (simp add: )
  apply arith
  done

lemma le32_id:
  "push_bit (8 * 0) (ucast (ucast (drop_bit (8 * 0) (x::u32) AND 0xFF) :: u8))
   OR push_bit (8 * 1) (ucast (ucast (drop_bit (8 * 1) x AND 0xFF) :: u8))
   OR push_bit (8 * 2) (ucast (ucast (drop_bit (8 * 2) x AND 0xFF) :: u8))
   OR push_bit (8 * 3) (ucast (ucast (drop_bit (8 * 3) x AND 0xFF) :: u8)) = x"
  apply (rule bit_word_eqI)
  apply (simp only: bit_or_iff bit_byte32)
  apply (simp add: )
  apply arith
  done

lemma upt8: "[0..<8] = [0, 1, 2, 3, 4, 5, 6, 7]"
  by (simp add: upt_rec)

lemma le64_id:
  "(((((((((0::u64) OR push_bit (8 * 0) (ucast (ucast (drop_bit (8 * 0) (x::u64) AND 0xFF) :: u8))) OR push_bit (8 * 1) (ucast (ucast (drop_bit (8 * 1) (x::u64) AND 0xFF) :: u8))) OR push_bit (8 * 2) (ucast (ucast (drop_bit (8 * 2) (x::u64) AND 0xFF) :: u8))) OR push_bit (8 * 3) (ucast (ucast (drop_bit (8 * 3) (x::u64) AND 0xFF) :: u8))) OR push_bit (8 * 4) (ucast (ucast (drop_bit (8 * 4) (x::u64) AND 0xFF) :: u8))) OR push_bit (8 * 5) (ucast (ucast (drop_bit (8 * 5) (x::u64) AND 0xFF) :: u8))) OR push_bit (8 * 6) (ucast (ucast (drop_bit (8 * 6) (x::u64) AND 0xFF) :: u8))) OR push_bit (8 * 7) (ucast (ucast (drop_bit (8 * 7) (x::u64) AND 0xFF) :: u8))) = x"
  apply (rule bit_word_eqI)
  apply (simp only: bit_or_iff bit_byte64)
  apply (simp add: )
  apply arith
  done

lemma drop_next: "drop off b = x # r \<Longrightarrow> drop (off + k) b = drop k (x # r)"
  by (metis add.commute drop_drop)

lemma drop_len: "drop off b = x # r \<Longrightarrow> length b = off + Suc (length r)"
proof -
  assume a: "drop off b = x # r"
  then have "length b - off = Suc (length r)" by (metis length_drop length_Cons)
  then show ?thesis by simp
qed

lemma at_drop: "drop off b = x # r \<Longrightarrow> at b off = Parsed x"
  by (frule drop_len) (simp add: at_def nth_via_drop)

lemma at_drop_k: "drop off b = xs \<Longrightarrow> k < length xs \<Longrightarrow> at b (off + k) = Parsed (xs ! k)"
proof -
  assume a: "drop off b = xs" and k: "k < length xs"
  have "length xs = length b - off" using a by (metis length_drop)
  with k have "off + k < length b" by simp
  moreover have "b ! (off + k) = xs ! k" using a k by (metis nth_drop \<open>off + k < length b\<close> less_or_eq_imp_le add_leD1 less_imp_le_nat)
  ultimately show ?thesis by (simp add: at_def)
qed

lemma drop_len_ge: "drop off b = xs \<Longrightarrow> xs \<noteq> [] \<Longrightarrow> length b = off + length xs"
  by (cases xs) (auto dest: drop_len)

lemma read_u16_rt:
  assumes "drop off b = push_u16_le [] x @ r"
  shows "read_u16_le b off = Parsed x"
proof -
  let ?xs = "push_u16_le [] x @ r"
  have len: "length b = off + length ?xs"
    using assms by (intro drop_len_ge) (simp_all add: push_u16_le_def)
  have a0: "at b (off + 0) = Parsed (?xs ! 0)" using assms by (rule at_drop_k) (simp add: push_u16_le_def)
  have a1: "at b (off + 1) = Parsed (?xs ! 1)" using assms by (rule at_drop_k) (simp add: push_u16_le_def)
  show ?thesis
    using a0 a1 len le16_id [of x]
    by (simp add: read_u16_le_def push_u16_le_def)
qed

lemma read_u32_rt:
  assumes "drop off b = push_u32_le [] x @ r"
  shows "read_u32_le b off = Parsed x"
proof -
  let ?xs = "push_u32_le [] x @ r"
  have len: "length b = off + length ?xs"
    using assms by (intro drop_len_ge) (simp_all add: push_u32_le_def)
  have a0: "at b (off + 0) = Parsed (?xs ! 0)" using assms by (rule at_drop_k) (simp add: push_u32_le_def)
  have a1: "at b (off + 1) = Parsed (?xs ! 1)" using assms by (rule at_drop_k) (simp add: push_u32_le_def)
  have a2: "at b (off + 2) = Parsed (?xs ! 2)" using assms by (rule at_drop_k) (simp add: push_u32_le_def)
  have a3: "at b (off + 3) = Parsed (?xs ! 3)" using assms by (rule at_drop_k) (simp add: push_u32_le_def)
  show ?thesis
    using a0 a1 a2 a3 len le32_id [of x]
    by (simp add: read_u32_le_def push_u32_le_def)
qed

lemma read_u64_rt:
  assumes "drop off b = push_u64_le [] x @ r"
  shows "read_u64_le b off = Parsed x"
proof -
  let ?xs = "push_u64_le [] x @ r"
  have len: "length b = off + length ?xs"
    using assms by (intro drop_len_ge) (simp_all add: push_u64_le_def)
  have a: "\<And>k. k < 8 \<Longrightarrow> at b (off + k) = Parsed (ucast (drop_bit (8 * k) x AND 0xFF))"
  proof -
    fix k :: nat assume k: "k < 8"
    have "at b (off + k) = Parsed (?xs ! k)" using assms k by (intro at_drop_k) (simp_all add: push_u64_le_def)
    then show "at b (off + k) = Parsed (ucast (drop_bit (8 * k) x AND 0xFF))"
      using k by (simp add: push_u64_le_def nth_append)
  qed
  show ?thesis
    using len le64_id [of x] a [of 0] a [of 1] a [of 2] a [of 3] a [of 4] a [of 5] a [of 6] a [of 7]
    by (simp add: read_u64_le_def upt8 push_u64_le_def)
qed

subsection \<open>Cursor round trip\<close>

lemma drop_plus: "drop off b = L \<Longrightarrow> drop (off + k) b = drop k L"
  by (metis add.commute drop_drop)

lemma length_push_u16 [simp]: "length (push_u16_le b x) = length b + 2"
  by (simp add: push_u16_le_def)
lemma length_push_u32 [simp]: "length (push_u32_le b x) = length b + 4"
  by (simp add: push_u32_le_def)
lemma length_push_u64 [simp]: "length (push_u64_le b x) = length b + 8"
  by (simp add: push_u64_le_def)

lemma push_u16_app: "push_u16_le b x = b @ push_u16_le [] x"
  by (simp add: push_u16_le_def)
lemma push_u32_app: "push_u32_le b x = b @ push_u32_le [] x"
  by (simp add: push_u32_le_def)
lemma push_u64_app: "push_u64_le b x = b @ push_u64_le [] x"
  by (simp add: push_u64_le_def)

text \<open>What \<open>push_lane\<close> appends for one lane (a proof device, not a source function).\<close>

definition lane_bytes :: "LaneState \<Rightarrow> u8 list" where
  "lane_bytes ln =
     (if \<not> st_active ln then [0]
      else if st_mode ln = 0 then 1 # push_u32_le [] (st_perm_pos ln) @ st_mode ln # push_u64_le [] (st_after ln)
      else if st_child_present ln
      then 1 # push_u32_le [] (st_perm_pos ln) @ st_mode ln # push_u64_le [] (st_parent_anchor ln)
           @ 1 # st_L ln # push_u64_le [] (st_left_idx ln) @ push_u64_le [] (st_right_idx ln)
      else 1 # push_u32_le [] (st_perm_pos ln) @ st_mode ln # push_u64_le [] (st_parent_anchor ln) @ [0])"

lemma push_lane_bytes: "push_lane b ln = b @ lane_bytes ln"
  by (simp add: push_lane_def lane_bytes_def push_u64_le_def push_u32_le_def Let_def)

lemma parse_lane_rt:
  assumes v: "valid_lane ln" and d: "drop off b = lane_bytes ln @ r"
  shows "parse_lane b off = Parsed (ln, off + length (lane_bytes ln))"
proof -
  have ne: "lane_bytes ln @ r \<noteq> []" by (simp add: lane_bytes_def)
  have len: "length b = off + length (lane_bytes ln @ r)"
    using d ne by (rule drop_len_ge)
  show ?thesis
  proof (cases "st_active ln")
    case False
    have d': "drop off b = 0 # r" using d False by (simp add: lane_bytes_def)
    have a0: "at b off = Parsed 0" using d' by (rule at_drop)
    have "ln = LaneState_init" using v False by (simp add: valid_lane_def)
    then show ?thesis
      using a0 len False
      by (simp add: parse_lane_def lane_bytes_def LaneState_init_def)
  next
    case True
    show ?thesis
    proof (cases "st_mode ln = 0")
      case m0: True
      have d': "drop off b = 1 # push_u32_le [] (st_perm_pos ln) @ st_mode ln # push_u64_le [] (st_after ln) @ r"
        using d True m0 by (simp add: lane_bytes_def)
      have a0: "at b off = Parsed 1" using d' by (rule at_drop)
      have pp: "\<And>q. q = off + 1 \<Longrightarrow> read_u32_le b q = Parsed (st_perm_pos ln)"
          using drop_plus [OF d', of 1] by (intro read_u32_rt) simp
      have md: "\<And>q. q = off + 5 \<Longrightarrow> at b q = Parsed (st_mode ln)"
          using drop_plus [OF d', of 5] by (intro at_drop) simp
      have af: "\<And>q. q = off + 6 \<Longrightarrow> read_u64_le b q = Parsed (st_after ln)"
          using drop_plus [OF d', of 6] by (intro read_u64_rt) simp
      have "ln = LaneState_init\<lparr>st_active := True, st_perm_pos := st_perm_pos ln, st_after := st_after ln\<rparr>"
        using v True m0 by (simp add: valid_lane_def)
      then have e: "\<lparr>st_active = True, st_perm_pos = st_perm_pos ln, st_mode = 0,
             st_after = st_after ln, st_parent_anchor = UINT64_MAX, st_child_present = False,
             st_L = 0, st_left_idx = 0, st_right_idx = 0\<rparr> = ln"
        by (cases ln) (simp add: LaneState_init_def)
      show ?thesis
        using a0 len True m0 e
        by (simp add: parse_lane_def lane_bytes_def Let_def LaneState_init_def pp md af)
    next
      case m1: False
      have af: "st_after ln = UINT64_MAX" using v True m1 by (simp add: valid_lane_def)
      show ?thesis
      proof (cases "st_child_present ln")
        case cp: True
        have d': "drop off b = 1 # push_u32_le [] (st_perm_pos ln) @ st_mode ln
              # push_u64_le [] (st_parent_anchor ln) @ 1 # st_L ln
              # push_u64_le [] (st_left_idx ln) @ push_u64_le [] (st_right_idx ln) @ r"
          using d True m1 cp by (simp add: lane_bytes_def)
        have a0: "at b off = Parsed 1" using d' by (rule at_drop)
        have pp: "\<And>q. q = off + 1 \<Longrightarrow> read_u32_le b q = Parsed (st_perm_pos ln)"
          using drop_plus [OF d', of 1] by (intro read_u32_rt) simp
        have md: "\<And>q. q = off + 5 \<Longrightarrow> at b q = Parsed (st_mode ln)"
          using drop_plus [OF d', of 5] by (intro at_drop) simp
        have pa: "\<And>q. q = off + 6 \<Longrightarrow> read_u64_le b q = Parsed (st_parent_anchor ln)"
          using drop_plus [OF d', of 6] by (intro read_u64_rt) simp
        have c: "\<And>q. q = off + 14 \<Longrightarrow> at b q = Parsed 1"
          using drop_plus [OF d', of 14] by (intro at_drop) simp
        have l: "\<And>q. q = off + 15 \<Longrightarrow> at b q = Parsed (st_L ln)"
          using drop_plus [OF d', of 15] by (intro at_drop) simp
        have li: "\<And>q. q = off + 16 \<Longrightarrow> read_u64_le b q = Parsed (st_left_idx ln)"
          using drop_plus [OF d', of 16] by (intro read_u64_rt) simp
        have ri: "\<And>q. q = off + 24 \<Longrightarrow> read_u64_le b q = Parsed (st_right_idx ln)"
          using drop_plus [OF d', of 24] by (intro read_u64_rt) simp
        have e: "\<lparr>st_active = True, st_perm_pos = st_perm_pos ln, st_mode = st_mode ln,
             st_after = UINT64_MAX, st_parent_anchor = st_parent_anchor ln, st_child_present = True,
             st_L = st_L ln, st_left_idx = st_left_idx ln, st_right_idx = st_right_idx ln\<rparr> = ln"
          using True cp af by (cases ln) simp
        show ?thesis
          using a0 len True m1 cp e
          by (simp add: parse_lane_def lane_bytes_def Let_def LaneState_init_def pp md pa c l li ri)
      next
        case cp: False
        have d': "drop off b = 1 # push_u32_le [] (st_perm_pos ln) @ st_mode ln
              # push_u64_le [] (st_parent_anchor ln) @ 0 # r"
          using d True m1 cp by (simp add: lane_bytes_def)
        have a0: "at b off = Parsed 1" using d' by (rule at_drop)
        have pp: "\<And>q. q = off + 1 \<Longrightarrow> read_u32_le b q = Parsed (st_perm_pos ln)"
          using drop_plus [OF d', of 1] by (intro read_u32_rt) simp
        have md: "\<And>q. q = off + 5 \<Longrightarrow> at b q = Parsed (st_mode ln)"
          using drop_plus [OF d', of 5] by (intro at_drop) simp
        have pa: "\<And>q. q = off + 6 \<Longrightarrow> read_u64_le b q = Parsed (st_parent_anchor ln)"
          using drop_plus [OF d', of 6] by (intro read_u64_rt) simp
        have c: "\<And>q. q = off + 14 \<Longrightarrow> at b q = Parsed 0"
          using drop_plus [OF d', of 14] by (intro at_drop) simp
        have z: "st_L ln = 0" "st_left_idx ln = 0" "st_right_idx ln = 0"
          using v True m1 cp by (simp_all add: valid_lane_def)
        have e: "\<lparr>st_active = True, st_perm_pos = st_perm_pos ln, st_mode = st_mode ln,
             st_after = UINT64_MAX, st_parent_anchor = st_parent_anchor ln, st_child_present = False,
             st_L = 0, st_left_idx = 0, st_right_idx = 0\<rparr> = ln"
          using True cp af z by (cases ln) simp
        show ?thesis
          using a0 len True m1 cp e
          by (simp add: parse_lane_def lane_bytes_def Let_def LaneState_init_def pp md pa c)
      qed
    qed
  qed
qed

lemma fold_push_lane: "fold (\<lambda>ln b. push_lane b ln) lns b = b @ concat (map lane_bytes lns)"
  by (induction lns arbitrary: b) (simp_all add: push_lane_bytes)

lemma parse_lanes_rt:
  "list_all valid_lane lns \<Longrightarrow> drop off b = concat (map lane_bytes lns) @ r \<Longrightarrow>
   parse_lanes b (length lns) off = Parsed lns"
proof (induction lns arbitrary: off)
  case Nil
  then show ?case by simp
next
  case (Cons ln lns)
  have d: "drop off b = lane_bytes ln @ (concat (map lane_bytes lns) @ r)"
    using Cons.prems(2) by simp
  have v: "valid_lane ln" using Cons.prems(1) by simp
  have p: "parse_lane b off = Parsed (ln, off + length (lane_bytes ln))"
    using v d by (rule parse_lane_rt)
  have "drop (off + length (lane_bytes ln)) b = concat (map lane_bytes lns) @ r"
    using drop_plus [OF d, of "length (lane_bytes ln)"] by simp
  then have "parse_lanes b (length lns) (off + length (lane_bytes ln)) = Parsed lns"
    using Cons.prems(1) by (intro Cons.IH) simp_all
  then show ?case by (simp add: p)
qed

text \<open>The fixed 30-byte header \<open>cursor_bytes\<close> starts with (a proof device).\<close>

definition header_bytes :: "WindowCursor \<Rightarrow> u8 list" where
  "header_bytes c =
     [of_char CHR ''B'', of_char CHR ''C'', of_char CHR ''W'', of_char CHR ''2'',
      c_flags c, c_k0 c, c_kout c, c_d c]
     @ push_u32_le [] (c_numShards c) @ push_u64_le [] (c_seed c)
     @ push_u32_le [] (c_next_perm_pos c) @ push_u16_le [] (c_window c)
     @ push_u16_le [] (c_burst c) @ push_u16_le [] (of_nat (length (c_lanes c)))"

lemma cursor_bytes_eq: "cursor_bytes c = header_bytes c @ concat (map lane_bytes (c_lanes c))"
  by (simp add: cursor_bytes_def header_bytes_def fold_push_lane Let_def
      push_u16_le_def push_u32_le_def push_u64_le_def)

lemma length_header_bytes: "length (header_bytes c) = 30"
  by (simp add: header_bytes_def)

lemma parse_cursor_rt:
  assumes "valid_cursor c"
  shows "parse_cursor_bcw2 (make_cursor_bcw2 c) = Parsed (c\<lparr>c_present := True\<rparr>)"
proof -
  let ?b = "cursor_bytes c"
  let ?r = "concat (map lane_bytes (c_lanes c))"
  have dec: "b64url_decode (make_cursor_bcw2 c) = Some ?b"
    by (simp add: make_cursor_bcw2_def b64url_roundtrip)
  have b: "?b = header_bytes c @ ?r" by (rule cursor_bytes_eq)
  have len: "\<not> length ?b < 30" by (simp add: b length_header_bytes)
  have d0: "drop 0 ?b = header_bytes c @ ?r" by (simp add: b)
  have m: "\<And>q. q = 0 \<Longrightarrow> at ?b q = Parsed (of_char CHR ''B'')"
      "\<And>q. q = 1 \<Longrightarrow> at ?b q = Parsed (of_char CHR ''C'')"
      "\<And>q. q = 2 \<Longrightarrow> at ?b q = Parsed (of_char CHR ''W'')"
      "\<And>q. q = 3 \<Longrightarrow> at ?b q = Parsed (of_char CHR ''2'')"
      "\<And>q. q = 4 \<Longrightarrow> at ?b q = Parsed (c_flags c)"
      "\<And>q. q = 5 \<Longrightarrow> at ?b q = Parsed (c_k0 c)"
      "\<And>q. q = 6 \<Longrightarrow> at ?b q = Parsed (c_kout c)"
      "\<And>q. q = 7 \<Longrightarrow> at ?b q = Parsed (c_d c)"
    by (simp_all add: at_def b header_bytes_def)
  have ns: "read_u32_le ?b 8 = Parsed (c_numShards c)"
    using drop_plus [OF d0, of 8] by (intro read_u32_rt) (simp add: header_bytes_def)
  have sd: "read_u64_le ?b 12 = Parsed (c_seed c)"
    using drop_plus [OF d0, of 12] by (intro read_u64_rt) (simp add: header_bytes_def)
  have np: "read_u32_le ?b 20 = Parsed (c_next_perm_pos c)"
    using drop_plus [OF d0, of 20] by (intro read_u32_rt) (simp add: header_bytes_def)
  have w: "read_u16_le ?b 24 = Parsed (c_window c)"
    using drop_plus [OF d0, of 24] by (intro read_u16_rt) (simp add: header_bytes_def)
  have bu: "read_u16_le ?b 26 = Parsed (c_burst c)"
    using drop_plus [OF d0, of 26] by (intro read_u16_rt) (simp add: header_bytes_def)
  have lc: "read_u16_le ?b 28 = Parsed (of_nat (length (c_lanes c)))"
    using drop_plus [OF d0, of 28] by (intro read_u16_rt [where r = ?r]) (simp add: header_bytes_def)
  have n: "unat (of_nat (length (c_lanes c)) :: u16) = length (c_lanes c)"
    using assms by (simp add: valid_cursor_def unat_of_nat)
  have "drop 30 ?b = ?r @ []"
    using drop_plus [OF d0, of 30] by (simp add: length_header_bytes)
  then have ls: "parse_lanes ?b (length (c_lanes c)) 30 = Parsed (c_lanes c)"
    using assms by (intro parse_lanes_rt) (simp_all add: valid_cursor_def)
  show ?thesis
    unfolding parse_cursor_bcw2_def dec
    using len by (simp add: m ns sd np w bu lc n ls)
qed

subsection \<open>The parser stays inside the byte vector\<close>

lemma bindp_Parsed_iff: "bindp m f = Parsed y \<longleftrightarrow> (\<exists>x. m = Parsed x \<and> f x = Parsed y)"
  by (cases m) simp_all

lemma bindp_OOB_iff:
  "bindp m f = OutOfBounds \<longleftrightarrow> m = OutOfBounds \<or> (\<exists>x. m = Parsed x \<and> f x = OutOfBounds)"
  by (cases m) simp_all

lemma at_in: "off < length b \<Longrightarrow> at b off = Parsed (b ! off)"
  by (simp add: at_def)

lemma read_u16_le_safe: "read_u16_le b off \<noteq> OutOfBounds"
  by (simp add: read_u16_le_def at_in)

lemma read_u32_le_safe: "read_u32_le b off \<noteq> OutOfBounds"
  by (simp add: read_u32_le_def at_in)

lemma read_u64_le_safe: "read_u64_le b off \<noteq> OutOfBounds"
  by (simp add: read_u64_le_def upt8 at_in)

lemma parse_lane_safe: "parse_lane b off \<noteq> OutOfBounds"
  using read_u32_le_safe read_u64_le_safe
  by (auto simp: parse_lane_def Let_def bindp_OOB_iff at_in)

lemma parse_lane_valid: "parse_lane b off = Parsed (ln, off') \<Longrightarrow> valid_lane ln"
  by (auto simp: parse_lane_def Let_def bindp_Parsed_iff valid_lane_def LaneState_init_def
      split: if_splits)

lemma parse_lanes_safe: "parse_lanes b n off \<noteq> OutOfBounds"
  by (induction n arbitrary: off) (auto simp: bindp_OOB_iff parse_lane_safe)

lemma parse_lanes_valid:
  "parse_lanes b n off = Parsed lns \<Longrightarrow> length lns = n \<and> list_all valid_lane lns"
  by (induction n arbitrary: off lns) (auto simp: bindp_Parsed_iff dest: parse_lane_valid)

lemma at_OOB_iff: "at b off = OutOfBounds \<longleftrightarrow> length b \<le> off"
  by (simp add: at_def)

lemma parse_cursor_safe: "parse_cursor_bcw2 token \<noteq> OutOfBounds"
  using read_u16_le_safe read_u32_le_safe read_u64_le_safe parse_lanes_safe
  by (auto simp: parse_cursor_bcw2_def bindp_OOB_iff at_OOB_iff split: option.splits)

lemma parse_cursor_valid: "parse_cursor_bcw2 token = Parsed c \<Longrightarrow> valid_cursor c \<and> c_present c"
proof -
  assume a: "parse_cursor_bcw2 token = Parsed c"
  then obtain b lc where l: "parse_lanes b (unat (lc::u16)) 30 = Parsed (c_lanes c)" and p: "c_present c"
    by (auto simp: parse_cursor_bcw2_def bindp_Parsed_iff split: option.splits if_splits)
  have "unat lc < 2 ^ 16" using unsigned_less [of lc] by simp
  with parse_lanes_valid [OF l] p show ?thesis by (simp add: valid_cursor_def)
qed

text \<open>
  Claim C4. The BCW2 codec round-trips: for every structurally valid cursor \<open>c\<close>, parsing
  the serialized token yields \<open>c\<close> (with the \<open>present\<close> mark the parser sets on every
  success; \<^verbatim>\<open>make_cursor_bcw2\<close> does not serialize it). And parsing any token never reads
  outside the decoded byte vector, and either fails or yields a structurally valid cursor.
\<close>

theorem cursor_codec_round_trip:
  "(valid_cursor c \<longrightarrow> parse_cursor_bcw2 (make_cursor_bcw2 c) = Parsed (c\<lparr>c_present := True\<rparr>))
   \<and> parse_cursor_bcw2 token \<noteq> OutOfBounds
   \<and> (\<forall>c'. parse_cursor_bcw2 token = Parsed c' \<longrightarrow> valid_cursor c' \<and> c_present c')"
  using parse_cursor_rt [of c] parse_cursor_safe [of token] parse_cursor_valid [of token]
  by blast

theorem cursor_codec_round_trip_witness:
  "valid_cursor
     \<lparr>c_present = False, c_flags = 1, c_k0 = 18, c_kout = 20, c_d = 2, c_numShards = 1000,
      c_seed = 12345, c_next_perm_pos = 3, c_window = 2, c_burst = 1,
      c_lanes = [LaneState_init,
                 LaneState_init\<lparr>st_active := True, st_perm_pos := 2, st_mode := 1,
                   st_parent_anchor := 77, st_child_present := True, st_L := 1,
                   st_left_idx := 2, st_right_idx := 3\<rparr>]\<rparr>
   \<and> parse_cursor_bcw2 (make_cursor_bcw2
     \<lparr>c_present = False, c_flags = 1, c_k0 = 18, c_kout = 20, c_d = 2, c_numShards = 1000,
      c_seed = 12345, c_next_perm_pos = 3, c_window = 2, c_burst = 1,
      c_lanes = [LaneState_init,
                 LaneState_init\<lparr>st_active := True, st_perm_pos := 2, st_mode := 1,
                   st_parent_anchor := 77, st_child_present := True, st_L := 1,
                   st_left_idx := 2, st_right_idx := 3\<rparr>]\<rparr>)
     = Parsed
     \<lparr>c_present = True, c_flags = 1, c_k0 = 18, c_kout = 20, c_d = 2, c_numShards = 1000,
      c_seed = 12345, c_next_perm_pos = 3, c_window = 2, c_burst = 1,
      c_lanes = [LaneState_init,
                 LaneState_init\<lparr>st_active := True, st_perm_pos := 2, st_mode := 1,
                   st_parent_anchor := 77, st_child_present := True, st_L := 1,
                   st_left_idx := 2, st_right_idx := 3\<rparr>]\<rparr>"
proof -
  let ?c = "\<lparr>c_present = False, c_flags = 1, c_k0 = 18, c_kout = 20, c_d = 2, c_numShards = 1000,
      c_seed = 12345, c_next_perm_pos = 3, c_window = 2, c_burst = 1,
      c_lanes = [LaneState_init,
                 LaneState_init\<lparr>st_active := True, st_perm_pos := 2, st_mode := 1,
                   st_parent_anchor := 77, st_child_present := True, st_L := 1,
                   st_left_idx := 2, st_right_idx := 3\<rparr>]\<rparr>"
  have v: "valid_cursor ?c"
    by (simp add: valid_cursor_def valid_lane_def LaneState_init_def UINT64_MAX_def)
  from cursor_codec_round_trip [of ?c "[]"] v
  have "parse_cursor_bcw2 (make_cursor_bcw2 ?c) = Parsed (?c\<lparr>c_present := True\<rparr>)"
    by blast
  with v show ?thesis by simp
qed

section \<open>KBITv1 shard files\<close>

record KbitHeader =
  h_total_bits :: u64
  h_ones :: u64
  h_k :: u64
  h_seed :: u64
  h_flags :: u64
  h_payload_len :: u64

text \<open>The eight bytes \<^verbatim>\<open>memcmp\<close> and \<^verbatim>\<open>memcpy\<close> take from the literal \<^verbatim>\<open>"KBITv1\0"\<close>.\<close>

definition kbit_magic :: "u8 list" where
  "kbit_magic = map of_char ''KBITv1'' @ [0, 0]"

text \<open>\<^verbatim>\<open>read_le64(p)\<close> with \<open>p = hdr + off\<close>; every use has \<open>off + 8 \<le> 64\<close>.\<close>

definition read_le64 :: "u8 list \<Rightarrow> nat \<Rightarrow> u64" where
  "read_le64 hdr off = fold (\<lambda>i v. v OR push_bit (8 * i) (ucast (hdr ! (off + i)))) [0..<8] 0"

datatype load_error = OpenFailed | InvalidHeader | NotPortable | Truncated | DeserializeFailed

text \<open>
  \<^verbatim>\<open>load_kbit_portable\<close> of the streaming search; the one of the membership query makes
  the same checks in the same order (\<^verbatim>\<open>read_header\<close>, flags, payload length,
  deserialization) and differs in its messages only. The file is its content
  (\<open>None\<close>: it cannot be opened); \<open>deser\<close> stands for the external
  \<^verbatim>\<open>roaring64_bitmap_portable_deserialize_safe\<close>, \<open>None\<close> for its null result. A returned
  bitmap is the set of its keys.
\<close>

definition load_kbit_portable ::
  "(u8 list \<Rightarrow> u64 set option) \<Rightarrow> u8 list option \<Rightarrow> load_error + (KbitHeader \<times> u64 set)" where
  "load_kbit_portable deser file =
     (case file of
        None \<Rightarrow> Inl OpenFailed
      | Some bytes \<Rightarrow>
          let hdr = take 64 bytes
          in if length hdr < 64 \<or> take 8 hdr \<noteq> kbit_magic then Inl InvalidHeader
             else let h = \<lparr>h_total_bits = read_le64 hdr 8, h_ones = read_le64 hdr 16,
                             h_k = read_le64 hdr 24, h_seed = read_le64 hdr 32,
                             h_flags = read_le64 hdr 40, h_payload_len = read_le64 hdr 48\<rparr>
                  in if h_flags h \<noteq> 2 then Inl NotPortable
                     else let payload = take (unat (h_payload_len h)) (drop 64 bytes)
                          in if length payload \<noteq> unat (h_payload_len h) then Inl Truncated
                             else (case deser payload of
                                     None \<Rightarrow> Inl DeserializeFailed
                                   | Some bm \<Rightarrow> Inr (h, bm)))"

subsection \<open>The dense generator (gen_kmer_bitmap)\<close>

text \<open>\<^verbatim>\<open>write_le64_u(dst, v)\<close>: the eight bytes stored at \<open>dst\<close>.\<close>

definition write_le64_u :: "u64 \<Rightarrow> u8 list" where
  "write_le64_u v = map (\<lambda>i. ucast (drop_bit (8 * i) v AND 0xFF)) [0..<8]"

text \<open>The final 64-byte header the generator rewrites at offset 0.\<close>

definition gen_header :: "u64 \<Rightarrow> u64 \<Rightarrow> u64 \<Rightarrow> u64 \<Rightarrow> u64 \<Rightarrow> u8 list" where
  "gen_header total_bits ones_target k seed payload_bytes =
     kbit_magic @ write_le64_u total_bits @ write_le64_u ones_target @ write_le64_u k
     @ write_le64_u seed @ write_le64_u 1 @ write_le64_u payload_bytes @ replicate 8 0"

text \<open>
  The payload loop. Which bit is set is decided by the generator's random selection
  sampling; here \<open>one i\<close> says whether bit \<open>i\<close> came out set, so that the model covers
  every outcome. A word collects up to 64 bits LSB-first and is written in the host's
  (little-endian) byte order.
\<close>

definition dense_word :: "(nat \<Rightarrow> bool) \<Rightarrow> nat \<Rightarrow> nat \<Rightarrow> u64" where
  "dense_word one base bits_here =
     fold (\<lambda>b w. if one (base + b) then w OR push_bit b 1 else w) [0..<bits_here] 0"

function dense_payload :: "(nat \<Rightarrow> bool) \<Rightarrow> nat \<Rightarrow> nat \<Rightarrow> u8 list" where
  "dense_payload one base remaining =
     (if remaining = 0 then []
      else let bits_here = (if remaining \<ge> 64 then 64 else remaining)
           in write_le64_u (dense_word one base bits_here)
              @ dense_payload one (base + bits_here) (remaining - bits_here))"
  by pat_completeness auto
termination
  by (relation "measure (\<lambda>(one, base, remaining). remaining)") auto

declare dense_payload.simps [simp del]

text \<open>The file \<^verbatim>\<open>gen_kmer_bitmap\<close> leaves for \<open>--k k\<close> (\<open>1 \<le> k \<le> 31\<close>) and \<open>--seed\<close>.\<close>

definition gen_dense_file :: "nat \<Rightarrow> u64 \<Rightarrow> u64 \<Rightarrow> (nat \<Rightarrow> bool) \<Rightarrow> u8 list" where
  "gen_dense_file k seed ones_target one =
     (let shift = 2 * k;
          total_bits = (push_bit shift 1 :: u64);
          payload_bytes = (total_bits + 7) div 8
      in gen_header total_bits ones_target (of_nat k) seed payload_bytes
         @ dense_payload one 0 (unat total_bits))"

lemma write_read_le64: "length pre = off \<Longrightarrow> read_le64 (pre @ write_le64_u v @ post) off = v"
  using le64_id [of v]
  by (auto simp: read_le64_def write_le64_u_def upt8 nth_append)

lemma length_write_le64 [simp]: "length (write_le64_u v) = 8"
  by (simp add: write_le64_u_def)

lemma length_kbit_magic [simp]: "length kbit_magic = 8"
  by (simp add: kbit_magic_def)

lemma length_gen_header: "length (gen_header t n k s p) = 64"
  by (simp add: gen_header_def)

lemma gen_header_flags: "read_le64 (gen_header t n k s p) 40 = 1"
  unfolding gen_header_def
  using write_read_le64 [of "kbit_magic @ write_le64_u t @ write_le64_u n @ write_le64_u k @ write_le64_u s" 40 1
      "write_le64_u p @ replicate 8 0"]
  by simp

lemma dense_rejected:
  "load_kbit_portable deser (Some (gen_dense_file k seed ones_target one)) = Inl NotPortable"
  by (simp add: load_kbit_portable_def gen_dense_file_def Let_def length_gen_header gen_header_flags)
     (simp add: gen_header_def)

text \<open>
  Claim C9 as stated fails: the query-side loader does not read the dense form back. For
  the generator's file for \<open>k = 1\<close> with bit 2 set, it returns no bitmap at all, whatever
  the deserializer.
\<close>

theorem dense_round_trip_counterexample:
  "\<forall>deser. \<not> (\<exists>h bm. load_kbit_portable deser
      (Some (gen_dense_file 1 7 1 (\<lambda>i. i = 2))) = Inr (h, bm))"
  by (simp add: dense_rejected)

text \<open>
  Claim C9, amended. Every dense-form file the generator writes (header flags = 1) is
  rejected by the query-side loader with its "not portable flags=2" failure, whatever the
  one-bits and the payload: the loader only accepts flags = 2.
\<close>

theorem dense_shard_rejected_by_loader:
  "load_kbit_portable deser (Some (gen_dense_file k seed ones_target one)) = Inl NotPortable"
  by (rule dense_rejected)

section \<open>Membership query (query_kmer_bitmap)\<close>

record ShardInfo =
  s_start :: u64
  s_end :: u64
  s_file :: string

text \<open>The loop of \<^verbatim>\<open>find_shard\<close>; \<open>None\<close> is its \<open>-1\<close>.\<close>

function find_shard_loop :: "ShardInfo list \<Rightarrow> u64 \<Rightarrow> nat \<Rightarrow> nat \<Rightarrow> nat option" where
  "find_shard_loop shards idx lo hi =
     (if lo < hi
      then let mid = lo + (hi - lo) div 2; s = shards ! mid
           in if idx < s_start s then find_shard_loop shards idx lo mid
              else if idx \<ge> s_end s then find_shard_loop shards idx (mid + 1) hi
              else Some mid
      else None)"
  by pat_completeness auto
termination
  by (relation "measure (\<lambda>(shards, idx, lo, hi). hi - lo)") auto

declare find_shard_loop.simps [simp del]

definition find_shard :: "ShardInfo list \<Rightarrow> u64 \<Rightarrow> nat option" where
  "find_shard shards idx = (if shards = [] then None else find_shard_loop shards idx 0 (length shards))"

text \<open>The lookup table of \<^verbatim>\<open>base_lut\<close>: \<open>0xFF\<close> means invalid.\<close>

definition base_lut :: "char \<Rightarrow> u8" where
  "base_lut c =
     (if c = CHR ''A'' \<or> c = CHR ''a'' then 0
      else if c = CHR ''C'' \<or> c = CHR ''c'' then 1
      else if c = CHR ''G'' \<or> c = CHR ''g'' then 2
      else if c = CHR ''T'' \<or> c = CHR ''t'' then 3
      else 0xFF)"

fun encode_loop :: "u64 \<Rightarrow> string \<Rightarrow> u64 option" where
  "encode_loop v [] = Some v"
| "encode_loop v (c # cs) =
     (let d = base_lut c
      in if d = 0xFF then None else encode_loop (push_bit 2 v OR ucast d) cs)"

definition encode_kmer_sv :: "string \<Rightarrow> int \<Rightarrow> u64 option" where
  "encode_kmer_sv sv k = (if int (length sv) \<noteq> k then None else encode_loop 0 sv)"

text \<open>
  The read loop of \<^verbatim>\<open>main\<close> over the lines the line reader returns: empty lines are
  skipped, the first line that does not encode ends the run. It returns the kept
  lines with their keys, in order.
\<close>

fun read_kmers :: "int \<Rightarrow> string list \<Rightarrow> (string \<times> u64) list option" where
  "read_kmers k [] = Some []"
| "read_kmers k (line # rest) =
     (if line = [] then read_kmers k rest
      else case encode_kmer_sv line k of
             None \<Rightarrow> None
           | Some idx \<Rightarrow> (case read_kmers k rest of
                            None \<Rightarrow> None
                          | Some kv \<Rightarrow> Some ((line, idx) # kv)))"

text \<open>
  Bucketing of the query positions by shard: \<open>None\<close> when some key is in no shard range;
  otherwise \<open>shard_to_indices\<close>, each bucket in increasing position order.
\<close>

fun bucket_loop :: "ShardInfo list \<Rightarrow> u64 list \<Rightarrow> nat \<Rightarrow> nat list list \<Rightarrow> nat list list option" where
  "bucket_loop shards [] i acc = Some acc"
| "bucket_loop shards (v # vs) i acc =
     (case find_shard shards v of
        None \<Rightarrow> None
      | Some sid \<Rightarrow> bucket_loop shards vs (i + 1) (acc[sid := acc ! sid @ [i]]))"

text \<open>
  The body of a worker for one shard: nothing for an empty bucket; a shard that fails to
  load is skipped (\<^verbatim>\<open>if (!sbm) continue;\<close>); otherwise every position of the bucket gets
  its flag. The workers take distinct shards and write distinct positions, so running
  them one after the other in shard order gives the same \<open>hits\<close>.
\<close>

definition probe_shard ::
  "(string \<Rightarrow> u8 list option) \<Rightarrow> (u8 list \<Rightarrow> u64 set option) \<Rightarrow> string \<Rightarrow> ShardInfo list
   \<Rightarrow> u64 list \<Rightarrow> nat list list \<Rightarrow> nat \<Rightarrow> char list \<Rightarrow> char list" where
  "probe_shard fs deser dir shards kmer_vals shard_to_indices sid hits =
     (if shard_to_indices ! sid = [] then hits
      else case load_kbit_portable deser (fs (dir @ ''/'' @ s_file (shards ! sid))) of
             Inl e \<Rightarrow> hits
           | Inr (h, sbm) \<Rightarrow>
               fold (\<lambda>idx_pos hs. hs[idx_pos := (if kmer_vals ! idx_pos \<in> sbm then CHR ''1'' else CHR ''0'')])
                 (shard_to_indices ! sid) hits)"

text \<open>
  \<^verbatim>\<open>main\<close> in sharded mode, after the arguments are parsed and the input and output are
  open. \<open>index\<close> is what \<^verbatim>\<open>read_index_shards\<close> produced (\<open>None\<close>: it returned false).
  The result is the exit status and what was written to the output, one element per
  \<^verbatim>\<open>fwrite\<close>.
\<close>

definition query_kmer_main ::
  "int \<Rightarrow> (u64 \<times> ShardInfo list) option \<Rightarrow> (string \<Rightarrow> u8 list option)
   \<Rightarrow> (u8 list \<Rightarrow> u64 set option) \<Rightarrow> string \<Rightarrow> string list \<Rightarrow> int \<times> string list" where
  "query_kmer_main args_k index fs deser dir lines =
     (case index of
        None \<Rightarrow> (2, [])
      | Some (k_from_index, shards) \<Rightarrow>
          let k_fixed = sint (ucast k_from_index :: 32 word)
          in if args_k \<noteq> - 1 \<and> k_fixed \<noteq> args_k then (2, [])
             else if \<not> (k_fixed = 16 \<or> k_fixed = 17 \<or> k_fixed = 18) then (2, [])
             else case read_kmers k_fixed lines of
                    None \<Rightarrow> (3, [])
                  | Some kv \<Rightarrow>
                      let kmers = map fst kv; kmer_vals = map snd kv;
                          hits0 = replicate (length kmers) (CHR ''0'')
                      in if shards = [] then (2, [])
                         else if \<exists>s \<in> set shards. s_end s \<le> s_start s then (2, [])
                         else case bucket_loop shards kmer_vals 0 (replicate (length shards) []) of
                                None \<Rightarrow> (2, [])
                              | Some shard_to_indices \<Rightarrow>
                                  let hits = fold (probe_shard fs deser dir shards kmer_vals shard_to_indices)
                                               [0..<length shards] hits0
                                  in (0, map (\<lambda>i. kmers ! i @ [CHR 0x09] @ [hits ! i] @ [CHR 0x0A])
                                           [0..<length kmers]))"

subsection \<open>Properties of the membership query\<close>




















text \<open>The output line: the k-mer, a tab, the flag, a newline.\<close>

definition result_line :: "string \<Rightarrow> bool \<Rightarrow> string" where
  "result_line kmer hit = kmer @ [CHR 0x09] @ [if hit then CHR ''1'' else CHR ''0''] @ [CHR 0x0A]"




text \<open>
  A concrete 16-mer database for the closed theorems below: two shards, of which the
  first one's file is a portable KBITv1 file (flags = 2, empty payload) and the second
  one's is missing; the deserializer in use returns the bitmap \<open>{0}\<close>.
\<close>

definition ex_shards :: "ShardInfo list" where
  "ex_shards = [\<lparr>s_start = 0, s_end = 2147483648, s_file = ''shard_0000.kbit''\<rparr>,
          \<lparr>s_start = 2147483648, s_end = 4294967296, s_file = ''shard_0001.kbit''\<rparr>]"

definition ex_file :: "u8 list" where
  "ex_file = kbit_magic @ write_le64_u 4294967296 @ write_le64_u 1 @ write_le64_u 16
     @ write_le64_u 0 @ write_le64_u 2 @ write_le64_u 0 @ replicate 8 0"

definition ex_fs :: "string \<Rightarrow> u8 list option" where
  "ex_fs p = (if p = ''shards_16/shard_0000.kbit'' then Some ex_file else None)"


lemma ex_keys: "encode_kmer_sv ''AAAAAAAAAAAAAAAA'' 16 = Some 0" "encode_kmer_sv ''acgtacgtacgtacgt'' 16 = Some 454761243"
  by (simp_all add: encode_kmer_sv_def base_lut_def)

lemma ex_find: "find_shard ex_shards 0 = Some 0" "find_shard ex_shards 454761243 = Some 0"
  by (simp_all add: find_shard_def ex_shards_def find_shard_loop.simps)














text \<open>
  Claim C6 is right and the code is not: in the membership query a shard that is missing,
  truncated or rejected by the deserializer does not fail the run. The worker skips it
  (\<^verbatim>\<open>if (!sbm) continue;\<close>), the run exits 0 and reports the affected key as absent. The
  key 0 below is present when its shard loads (second conjunct: the whole 64-byte file).
\<close>

theorem membership_shard_failure_not_fatal:
  "query_kmer_main 16 (Some (16, ex_shards)) (\<lambda>p. None) (\<lambda>p. Some {0}) ''shards_16''
     [''AAAAAAAAAAAAAAAA''] = (0, [result_line ''AAAAAAAAAAAAAAAA'' False])
   \<and> query_kmer_main 16 (Some (16, ex_shards)) (\<lambda>p. Some (take 64 ex_file)) (\<lambda>p. Some {0})
     ''shards_16'' [''AAAAAAAAAAAAAAAA''] = (0, [result_line ''AAAAAAAAAAAAAAAA'' True])
   \<and> query_kmer_main 16 (Some (16, ex_shards)) (\<lambda>p. Some (take 63 ex_file)) (\<lambda>p. Some {0})
     ''shards_16'' [''AAAAAAAAAAAAAAAA''] = (0, [result_line ''AAAAAAAAAAAAAAAA'' False])
   \<and> query_kmer_main 16 (Some (16, ex_shards)) ex_fs (\<lambda>p. None) ''shards_16''
     [''AAAAAAAAAAAAAAAA''] = (0, [result_line ''AAAAAAAAAAAAAAAA'' False])"
  by (simp add: query_kmer_main_def ex_keys ex_find Let_def)
     (simp add: ex_shards_def ex_fs_def probe_shard_def result_line_def load_kbit_portable_def
        ex_file_def kbit_magic_def write_le64_u_def read_le64_def upt8 Let_def)

section \<open>Windowed streaming search (query_substring_bitmap_stream)\<close>

subsection \<open>Filters\<close>

text \<open>The counting loop of \<^verbatim>\<open>passes_gc_percent\<close>, \<open>n\<close> iterations left.\<close>

fun gc_loop :: "nat \<Rightarrow> u64 \<Rightarrow> int \<Rightarrow> int" where
  "gc_loop 0 v gc = gc"
| "gc_loop (Suc n) v gc =
     (let d = v AND 3
      in gc_loop n (drop_bit 2 v) (gc + (if d = 1 \<or> d = 2 then 1 else 0)))"

definition passes_gc_percent :: "u64 \<Rightarrow> int \<Rightarrow> int \<Rightarrow> int \<Rightarrow> bool" where
  "passes_gc_percent v k gcMinPct gcMaxPct =
     (let gc = gc_loop (nat k) v 0; lhs = gc * 100; lo = gcMinPct * k; hi = gcMaxPct * k
      in lhs \<ge> lo \<and> lhs \<le> hi)"

record Pattern =
  p_mask :: u64
  p_bits :: u64

fun contains_sub :: "u64 \<Rightarrow> Pattern list \<Rightarrow> bool" where
  "contains_sub v [] = False"
| "contains_sub v (p # pats) =
     (if (v XOR p_bits p) AND p_mask p = 0 then True else contains_sub v pats)"

definition leaf_ok :: "u64 \<Rightarrow> int \<Rightarrow> int \<Rightarrow> int \<Rightarrow> bool \<Rightarrow> Pattern list \<Rightarrow> bool" where
  "leaf_ok vX kout gcMinPct gcMaxPct substring_set patterns =
     (if \<not> passes_gc_percent vX kout gcMinPct gcMaxPct then False
      else if substring_set \<and> \<not> contains_sub vX patterns then False
      else True)"

subsection \<open>Substring patterns\<close>

definition base4_digit :: "char \<Rightarrow> int" where
  "base4_digit c =
     (if c = CHR ''A'' \<or> c = CHR ''a'' then 0
      else if c = CHR ''C'' \<or> c = CHR ''c'' then 1
      else if c = CHR ''G'' \<or> c = CHR ''g'' then 2
      else if c = CHR ''T'' \<or> c = CHR ''t'' then 3
      else - 1)"

definition dna_comp :: "char \<Rightarrow> char" where
  "dna_comp c =
     (if c = CHR ''A'' then CHR ''T'' else if c = CHR ''a'' then CHR ''t''
      else if c = CHR ''C'' then CHR ''G'' else if c = CHR ''c'' then CHR ''g''
      else if c = CHR ''G'' then CHR ''C'' else if c = CHR ''g'' then CHR ''c''
      else if c = CHR ''T'' then CHR ''A'' else if c = CHR ''t'' then CHR ''a''
      else CHR ''?'')"

text \<open>\<^verbatim>\<open>out[s.size() - 1 - i] = dna_comp(s[i])\<close> for every \<open>i\<close>.\<close>

definition revcomp_string :: "string \<Rightarrow> string" where
  "revcomp_string s = rev (map dna_comp s)"

datatype stream_error =
    BadArgs | BadIndexFile | BadIndexK | KoutTooLarge | ExpansionNeedsK18 | ExpansionDisabled
  | BadGcHist | GcHistKMismatch | SubstringTooLong | InvalidBase
  | BadCursorToken | CursorMismatchShards | CursorMismatchK | CursorMismatchWindow
  | CursorMismatchBurst | CursorMismatchRandomAccess

text \<open>The loop that packs the substring; \<open>None\<close> is the "Invalid base" failure.\<close>

fun sub_bits_loop :: "u64 \<Rightarrow> string \<Rightarrow> u64 option" where
  "sub_bits_loop sub_bits [] = Some sub_bits"
| "sub_bits_loop sub_bits (c # cs) =
     (let dd = base4_digit c
      in if dd < 0 then None else sub_bits_loop (push_bit 2 sub_bits OR word_of_int dd) cs)"

text \<open>The lambda \<^verbatim>\<open>append_patterns_for\<close> of \<^verbatim>\<open>main\<close>, with the vector it appends to.\<close>

definition append_patterns_for :: "int \<Rightarrow> Pattern list \<Rightarrow> string \<Rightarrow> stream_error + Pattern list" where
  "append_patterns_for kout patterns sub =
     (let m = int (length sub)
      in if m = 0 then Inr patterns
         else if m > kout then Inl SubstringTooLong
         else case sub_bits_loop 0 sub of
                None \<Rightarrow> Inl InvalidBase
              | Some sub_bits \<Rightarrow>
                  let base_mask = (if m \<ge> 32 then NOT 0 else push_bit (nat (2 * m)) 1 - 1)
                  in Inr (patterns @
                       map (\<lambda>pos. let shift = nat (2 * (kout - m - int pos))
                                  in \<lparr>p_mask = push_bit shift base_mask,
                                      p_bits = push_bit shift sub_bits\<rparr>)
                         [0..<nat (kout - m + 1)]))"

definition build_patterns :: "int \<Rightarrow> bool \<Rightarrow> string \<Rightarrow> bool \<Rightarrow> stream_error + Pattern list" where
  "build_patterns kout substring_set substring reverse_complement =
     (if substring_set
      then case append_patterns_for kout [] substring of
             Inl e \<Rightarrow> Inl e
           | Inr pats \<Rightarrow>
               if reverse_complement
               then let rc = revcomp_string substring
                    in if rc \<noteq> substring then append_patterns_for kout pats rc else Inr pats
               else Inr pats
      else Inr [])"

subsection \<open>Shard permutation\<close>

definition splitmix64 :: "u64 \<Rightarrow> u64" where
  "splitmix64 x0 =
     (let x1 = x0 + 0x9E3779B97F4A7C15;
          x2 = (x1 XOR drop_bit 30 x1) * 0xBF58476D1CE4E5B9;
          x3 = (x2 XOR drop_bit 27 x2) * 0x94D049BB133111EB
      in x3 XOR drop_bit 31 x3)"

text \<open>The shuffle loop of \<^verbatim>\<open>build_perm\<close>, \<open>i\<close> counting down; entries are shard indices.\<close>

fun perm_loop :: "nat \<Rightarrow> u64 \<Rightarrow> nat list \<Rightarrow> nat list" where
  "perm_loop i st p =
     (if i > 1
      then let st1 = splitmix64 st; j = unat st1 mod i
           in perm_loop (i - 1) st1 (p[i - 1 := p ! j, j := p ! (i - 1)])
      else p)"

declare perm_loop.simps [simp del]

definition build_perm :: "nat \<Rightarrow> u64 \<Rightarrow> nat list" where
  "build_perm n seed = perm_loop n (if seed \<noteq> 0 then seed else 1) [0..<n]"

subsection \<open>Command line and environment\<close>

record Args =
  a_shardsDir :: string
  a_gcHistPath :: string
  a_substring :: string
  a_substring_set :: bool
  a_reverse_complement :: bool
  a_gcMinPct :: int
  a_gcMaxPct :: int
  a_limit :: u64
  a_threads :: int
  a_construct_k :: int
  a_cursor_set :: bool
  a_cursor_token :: string
  a_random_access :: bool
  a_ra_seed_set :: bool
  a_ra_seed :: u64
  a_window :: u16
  a_burst :: u16
  a_refill_chunk :: u32

text \<open>The member initialisers of \<^verbatim>\<open>struct Args\<close>.\<close>

definition Args_init :: Args where
  "Args_init =
     \<lparr>a_shardsDir = [], a_gcHistPath = [], a_substring = [], a_substring_set = False,
      a_reverse_complement = False, a_gcMinPct = 0, a_gcMaxPct = 100, a_limit = 200,
      a_threads = 4, a_construct_k = - 1, a_cursor_set = False, a_cursor_token = [],
      a_random_access = False, a_ra_seed_set = False, a_ra_seed = 0, a_window = 16,
      a_burst = 1, a_refill_chunk = 256\<rparr>"

text \<open>
  The checks \<^verbatim>\<open>parse_args\<close> makes once its option loop has filled the structure. (The
  loop itself stores \<open>max(1, n)\<close> for \<^verbatim>\<open>--threads\<close>, \<^verbatim>\<open>--window\<close> and \<^verbatim>\<open>--burst\<close>, and
  \<open>max(16, n)\<close> for \<^verbatim>\<open>--refill_chunk\<close>.)
\<close>

definition parse_args_checks :: "Args \<Rightarrow> bool" where
  "parse_args_checks a =
     (if a_shardsDir a = [] \<or> a_gcHistPath a = [] then False
      else if a_gcMinPct a < 0 \<or> a_gcMinPct a > 100 \<or> a_gcMaxPct a < 0 \<or> a_gcMaxPct a > 100
              \<or> a_gcMinPct a > a_gcMaxPct a then False
      else if a_limit a < 1 then False
      else True)"

text \<open>What \<^verbatim>\<open>read_index\<close> hands back from \<^verbatim>\<open>index.json\<close>; its \<open>files\<close> has \<open>numShards\<close> entries.\<close>

record IndexJson =
  ix_numShards :: nat
  ix_files :: "string list"
  ix_k :: u64
  ix_total_bits :: u64
  ix_starts :: "u64 list"
  ix_ends :: "u64 list"

text \<open>
  Everything \<^verbatim>\<open>main\<close> reads from outside: the result of \<^verbatim>\<open>read_index\<close> (\<open>None\<close>: it
  returned false), the \<open>k\<close> of \<^verbatim>\<open>load_gc_hist_json\<close> (\<open>None\<close>: it returned false), the
  files by path, the roaring deserializer, and the four draws of \<^verbatim>\<open>std::random_device\<close>.
\<close>

record Env =
  e_index :: "IndexJson option"
  e_gc_hist_k :: "int option"
  e_file :: "string \<Rightarrow> u8 list option"
  e_deser :: "u8 list \<Rightarrow> u64 set option"
  e_rd :: "u32 \<times> u32 \<times> u32 \<times> u32"

text \<open>
  The locals of \<^verbatim>\<open>main\<close> that the scan reads and never writes once set up. \<open>cx_open\<close> is
  \<^verbatim>\<open>load_kbit_portable(args.shardsDir + "/" + shardFiles[shardIdx], hdr)\<close> as a function of
  \<open>shardIdx\<close>, \<open>None\<close> for its null result.
\<close>

record Ctx =
  cx_k0 :: int
  cx_kout :: int
  cx_gcMinPct :: int
  cx_gcMaxPct :: int
  cx_substring_set :: bool
  cx_patterns :: "Pattern list"
  cx_refill_chunk :: u32
  cx_limit :: u64
  cx_window :: u16
  cx_burst :: u16
  cx_random_access :: bool
  cx_numShards :: nat
  cx_shard_starts :: "u64 list"
  cx_shard_ends :: "u64 list"
  cx_seed :: u64
  cx_perm :: "nat list"
  cx_open :: "nat \<Rightarrow> u64 set option"

text \<open>The shard ranges \<^verbatim>\<open>main\<close> computes when the index does not list them for every shard.\<close>

definition default_ranges :: "u64 \<Rightarrow> int \<Rightarrow> nat \<Rightarrow> u64 list \<times> u64 list" where
  "default_ranges total_bits_index k0 numShards =
     (let total_bits = (if total_bits_index \<noteq> 0 then total_bits_index
                        else push_bit (nat (2 * k0)) 1);
          width = (total_bits + of_nat numShards - 1) div of_nat numShards
      in (map (\<lambda>i. of_nat i * width) [0..<numShards],
          map (\<lambda>i. min total_bits (of_nat i * width + width)) [0..<numShards]))"

definition open_shard :: "Env \<Rightarrow> string \<Rightarrow> string list \<Rightarrow> nat \<Rightarrow> u64 set option" where
  "open_shard env shardsDir shardFiles shardIdx =
     (case load_kbit_portable (e_deser env) (e_file env (shardsDir @ ''/'' @ shardFiles ! shardIdx)) of
        Inl err \<Rightarrow> None
      | Inr (hdr, bm) \<Rightarrow> Some bm)"

text \<open>The permutation seed \<^verbatim>\<open>main\<close> picks before it looks at the cursor.\<close>

definition initial_seed :: "Args \<Rightarrow> Env \<Rightarrow> u64" where
  "initial_seed args env =
     (if a_random_access args
      then let seed = (if a_ra_seed_set args then a_ra_seed args
                       else case e_rd env of (r1, r2, r3, r4) \<Rightarrow>
                              let s1 = push_bit 32 (ucast r1) XOR ucast r2;
                                  s2 = push_bit 32 (ucast r3) XOR ucast r4
                              in splitmix64 (s1 XOR push_bit 1 s2))
           in if seed = 0 then 1 else seed
      else 0)"

text \<open>
  \<^verbatim>\<open>main\<close> from \<^verbatim>\<open>parse_args\<close> to the substring patterns: the effective \<open>k0\<close> and \<open>kout\<close>, the
  shard ranges and the patterns, or the error it stops with (every one of them is
  \<^verbatim>\<open>return 1\<close> before anything is written to standard output).
\<close>

definition stream_prelude ::
  "Args \<Rightarrow> Env \<Rightarrow> stream_error + (IndexJson \<times> int \<times> int \<times> u64 list \<times> u64 list \<times> Pattern list)" where
  "stream_prelude args env =
     (if \<not> parse_args_checks args then Inl BadArgs
      else case e_index env of
        None \<Rightarrow> Inl BadIndexFile
      | Some ix \<Rightarrow>
          let k_index = sint (ucast (ix_k ix) :: 32 word)
          in if k_index \<le> 0 \<or> k_index > 32 then Inl BadIndexK
             else let k0 = k_index;
                      kout = (if a_construct_k args > 0 then a_construct_k args else k0)
                  in if kout > 32 then Inl KoutTooLarge
                     else if kout > 18 \<and> k0 \<noteq> 18 then Inl ExpansionNeedsK18
                     else if k0 < 18 \<and> kout \<noteq> k0 then Inl ExpansionDisabled
                     else case e_gc_hist_k env of
                       None \<Rightarrow> Inl BadGcHist
                     | Some k_from_hist \<Rightarrow>
                         if k_from_hist \<noteq> k0 then Inl GcHistKMismatch
                         else let (starts, ends) =
                                    (if length (ix_starts ix) \<noteq> ix_numShards ix
                                        \<or> length (ix_ends ix) \<noteq> ix_numShards ix
                                     then default_ranges (ix_total_bits ix) k0 (ix_numShards ix)
                                     else (ix_starts ix, ix_ends ix))
                              in case build_patterns kout (a_substring_set args) (a_substring args)
                                        (a_reverse_complement args) of
                                   Inl e \<Rightarrow> Inl e
                                 | Inr patterns \<Rightarrow> Inr (ix, k0, kout, starts, ends, patterns))"

text \<open>
  The rest of the set-up: seed and permutation, then the cursor. The result is the
  context of the scan with \<open>next_perm_pos\<close> and the lane states to start from.
\<close>

definition stream_setup :: "Args \<Rightarrow> Env \<Rightarrow> stream_error + (Ctx \<times> u32 \<times> LaneState list)" where
  "stream_setup args env =
     (case stream_prelude args env of
        Inl e \<Rightarrow> Inl e
      | Inr (ix, k0, kout, starts, ends, patterns) \<Rightarrow>
          let numShards = ix_numShards ix;
              seed0 = initial_seed args env;
              perm0 = (if a_random_access args then build_perm numShards seed0 else [0..<numShards]);
              cx = \<lparr>cx_k0 = k0, cx_kout = kout, cx_gcMinPct = a_gcMinPct args,
                    cx_gcMaxPct = a_gcMaxPct args, cx_substring_set = a_substring_set args,
                    cx_patterns = patterns, cx_refill_chunk = a_refill_chunk args,
                    cx_limit = a_limit args, cx_window = a_window args, cx_burst = a_burst args,
                    cx_random_access = a_random_access args, cx_numShards = numShards,
                    cx_shard_starts = starts, cx_shard_ends = ends, cx_seed = seed0,
                    cx_perm = perm0,
                    cx_open = open_shard env (a_shardsDir args) (ix_files ix)\<rparr>
          in if a_cursor_set args
             then case parse_cursor_bcw2 (a_cursor_token args) of
                    Parsed inc \<Rightarrow>
                      if c_numShards inc \<noteq> of_nat numShards then Inl CursorMismatchShards
                      else if c_k0 inc \<noteq> word_of_int k0 \<or> c_kout inc \<noteq> word_of_int kout
                        then Inl CursorMismatchK
                      else if c_window inc \<noteq> a_window args then Inl CursorMismatchWindow
                      else if c_burst inc \<noteq> a_burst args then Inl CursorMismatchBurst
                      else if (c_flags inc AND 1 \<noteq> 0) \<noteq> a_random_access args
                        then Inl CursorMismatchRandomAccess
                      else let seed = (if a_random_access args
                                       then (if c_seed inc = 0 then 1 else c_seed inc) else seed0);
                               perm = (if a_random_access args then build_perm numShards seed
                                       else perm0)
                           in Inr (cx\<lparr>cx_seed := seed, cx_perm := perm\<rparr>,
                                   c_next_perm_pos inc, c_lanes inc)
                  | _ \<Rightarrow> Inl BadCursorToken
             else Inr (cx, 0, replicate (unat (a_window args)) (LaneState_init\<lparr>st_active := False\<rparr>)))"

subsection \<open>Lane runtime and refill\<close>

text \<open>
  \<^verbatim>\<open>struct LaneRuntime\<close>; the bitmap pointer is the key set it points to, \<open>None\<close> for
  \<^verbatim>\<open>nullptr\<close>. (\<^verbatim>\<open>shardPath\<close> and \<^verbatim>\<open>hdr\<close> are written and never read.)
\<close>

record LaneRuntime =
  ln_active :: bool
  ln_perm_pos :: u32
  ln_shardIdx :: nat
  ln_bm :: "u64 set option"
  ln_after :: u64
  ln_parent_anchor :: u64
  ln_child_present :: bool
  ln_L :: u8
  ln_left_idx :: u64
  ln_right_idx :: u64
  ln_buf :: "u64 list"
  ln_buf_pos :: nat

definition LaneRuntime_init :: LaneRuntime where
  "LaneRuntime_init =
     \<lparr>ln_active = False, ln_perm_pos = 0, ln_shardIdx = 0, ln_bm = None, ln_after = UINT64_MAX,
      ln_parent_anchor = UINT64_MAX, ln_child_present = False, ln_L = 0, ln_left_idx = 0,
      ln_right_idx = 0, ln_buf = [], ln_buf_pos = 0\<rparr>"

definition clear_buf :: "LaneRuntime \<Rightarrow> LaneRuntime" where
  "clear_buf lane = lane\<lparr>ln_buf := [], ln_buf_pos := 0\<rparr>"

definition free_all :: "LaneRuntime \<Rightarrow> LaneRuntime" where
  "free_all lane = clear_buf (lane\<lparr>ln_bm := None, ln_active := False\<rparr>)"

text \<open>
  The scan loop of mode 0, from \<open>v\<close>: \<open>ok\<close> is \<^verbatim>\<open>leaf_ok\<close> with the request's filters,
  \<open>target\<close> is \<^verbatim>\<open>refill_target\<close>. It returns the final \<open>v\<close> and the buffer.
\<close>

function scan_konly ::
  "u64 set \<Rightarrow> (u64 \<Rightarrow> bool) \<Rightarrow> u64 \<Rightarrow> nat \<Rightarrow> u64 \<Rightarrow> u64 list \<Rightarrow> u64 \<times> u64 list" where
  "scan_konly bm ok endv target v buf =
     (if v < endv \<and> length buf < target
      then if v \<in> bm then scan_konly bm ok endv target (v + 1) buf
           else if \<not> ok v then scan_konly bm ok endv target (v + 1) buf
           else scan_konly bm ok endv target (v + 1) (buf @ [v])
      else (v, buf))"
  by pat_completeness auto

text \<open>\<^verbatim>\<open>while (parentB < end && roaring64_bitmap_contains(lane.bm, parentB)) parentB++\<close>\<close>

function skip_present :: "u64 set \<Rightarrow> u64 \<Rightarrow> u64 \<Rightarrow> u64" where
  "skip_present bm endv parentB =
     (if parentB < endv \<and> parentB \<in> bm then skip_present bm endv (parentB + 1) else parentB)"
  by pat_completeness auto

text \<open>
  The per-parent loop of mode 1, from state \<open>s = (Lcur, li, ri)\<close>. It returns
  \<^verbatim>\<open>exhausted_parent\<close>, the state and the buffer.
\<close>

function expand_parent ::
  "(u64 \<Rightarrow> bool) \<Rightarrow> u64 \<Rightarrow> int \<Rightarrow> int \<Rightarrow> nat \<Rightarrow> exp_state \<Rightarrow> u64 list
     \<Rightarrow> bool \<times> exp_state \<times> u64 list" where
  "expand_parent ok parentB k0 kout target s buf =
     (if length buf < target
      then case s of (Lcur, li, ri) \<Rightarrow>
             let vX = make_value parentB k0 kout (uint Lcur) li ri;
                 buf1 = (if ok vX then buf @ [vX] else buf)
             in case advance_state (kout - k0) s of
                  (go, s1) \<Rightarrow>
                    if \<not> go then (True, s1, buf1)
                    else expand_parent ok parentB k0 kout target s1 buf1
      else (False, s, buf))"
  by pat_completeness auto

lemma word_lt_succ_measure: "(v::u64) < e \<Longrightarrow> unat e - unat (v + 1) < unat e - unat v"
proof -
  assume a: "v < e"
  have "v \<noteq> - 1"
  proof
    assume "v = - 1"
    with a show False by simp
  qed
  then have "unat (v + 1) = Suc (unat v)" by (rule unat_plus1)
  moreover have "unat v < unat e" using a by (simp add: word_less_nat_alt)
  ultimately show ?thesis by simp
qed

termination scan_konly
  by (relation "measure (\<lambda>(bm, ok, e, target, v, buf). unat e - unat v)")
     (auto simp: word_lt_succ_measure)

termination skip_present
  by (relation "measure (\<lambda>(bm, e, v). unat e - unat v)") (auto simp: word_lt_succ_measure)

termination expand_parent
  apply (relation "measures [\<lambda>(ok, B, k0, kout, t, (L, l, r), buf). unat L,
                              \<lambda>(ok, B, k0, kout, t, (L, l, r), buf). idx_dist l (pow4 (uint L)),
                              \<lambda>(ok, B, k0, kout, t, (L, l, r), buf). idx_dist r (pow4 (kout - k0 - uint L))]")
   apply simp
  apply (auto simp: advance_state_def Let_def idx_dist_step dec_L split: if_splits prod.splits)
  done

declare scan_konly.simps [simp del] skip_present.simps [simp del] expand_parent.simps [simp del]

lemma skip_present_ge: "parentB \<le> skip_present bm endv parentB"
proof (induction bm endv parentB rule: skip_present.induct)
  case (1 bm endv parentB)
  show ?case
  proof (cases "parentB < endv \<and> parentB \<in> bm")
    case True
    then have "parentB \<noteq> - 1" by auto
    then have "parentB \<le> parentB + 1"
      by (simp add: word_le_nat_alt unat_plus1)
    also have "parentB + 1 \<le> skip_present bm endv (parentB + 1)" using 1 True by simp
    finally show ?thesis using True by (subst skip_present.simps) simp
  next
    case False
    then show ?thesis by (subst skip_present.simps) auto
  qed
qed

text \<open>The parent the outer loop of mode 1 starts its round from.\<close>

definition next_parent :: "u64 \<Rightarrow> LaneRuntime \<Rightarrow> u64" where
  "next_parent start lane =
     (if ln_parent_anchor lane = UINT64_MAX then start
      else if ln_child_present lane then ln_parent_anchor lane
      else ln_parent_anchor lane + 1)"

text \<open>The outer loop of mode 1, \<^verbatim>\<open>while (lane.buf.size() < refill_target)\<close>.\<close>

function refill_expand ::
  "u64 set \<Rightarrow> (u64 \<Rightarrow> bool) \<Rightarrow> int \<Rightarrow> int \<Rightarrow> u64 \<Rightarrow> u64 \<Rightarrow> nat \<Rightarrow> LaneRuntime \<Rightarrow> LaneRuntime" where
  "refill_expand bm ok k0 kout start endv target lane =
     (if length (ln_buf lane) < target
      then let parentB = skip_present bm endv (next_parent start lane)
           in if parentB \<ge> endv then lane\<lparr>ln_active := False\<rparr>
              else let s0 = (if ln_child_present lane \<and> ln_parent_anchor lane = parentB
                             then (ln_L lane, ln_left_idx lane, ln_right_idx lane)
                             else init_state_first (kout - k0))
                   in case expand_parent ok parentB k0 kout target s0 (ln_buf lane) of
                        (exhausted_parent, (Lcur, li, ri), buf) \<Rightarrow>
                          if length buf \<ge> target
                          then lane\<lparr>ln_buf := buf, ln_parent_anchor := parentB,
                                 ln_child_present := True, ln_L := Lcur, ln_left_idx := li,
                                 ln_right_idx := ri\<rparr>
                          else refill_expand bm ok k0 kout start endv target
                                 (lane\<lparr>ln_buf := buf, ln_parent_anchor := parentB,
                                    ln_child_present := False, ln_L := 0, ln_left_idx := 0,
                                    ln_right_idx := 0\<rparr>)
      else lane)"
  by pat_completeness auto

lemma refill_expand_measure:
  assumes "\<not> endv \<le> skip_present bm endv p"
  shows "unat endv - unat (skip_present bm endv p + 1) < unat endv - unat (p::u64)"
proof -
  let ?q = "skip_present bm endv p"
  have lt: "?q < endv" using assms by simp
  have "unat endv - unat (?q + 1) < unat endv - unat ?q" by (rule word_lt_succ_measure [OF lt])
  moreover have "unat p \<le> unat ?q" using skip_present_ge [of p bm endv] by (simp add: word_le_nat_alt)
  ultimately show ?thesis by simp
qed

termination refill_expand
  apply (relation "measure (\<lambda>(bm, ok, k0, kout, start, endv, target, lane).
                      unat endv - unat (next_parent start lane))")
   apply simp
  subgoal premises p for bm ok k0 kout start endv target lane parentB
  proof -
    have ne: "parentB \<noteq> UINT64_MAX" using p(3) by (auto simp: UINT64_MAX_def)
    show ?thesis
      using refill_expand_measure [of endv bm "next_parent start lane"] p(2,3) ne
      by (simp add: next_parent_def)
  qed
  done

declare refill_expand.simps [simp del]

text \<open>
  \<^verbatim>\<open>refill_lane\<close>. Both modes make the same range check on \<open>shardIdx\<close> before they read
  \<open>start\<close> and \<open>end\<close>.
\<close>

definition refill_lane ::
  "LaneRuntime \<Rightarrow> int \<Rightarrow> int \<Rightarrow> int \<Rightarrow> int \<Rightarrow> bool \<Rightarrow> Pattern list \<Rightarrow> u32
     \<Rightarrow> u64 list \<Rightarrow> u64 list \<Rightarrow> LaneRuntime" where
  "refill_lane lane0 k0 kout gcMinPct gcMaxPct substring_set patterns refill_target
       shard_starts shard_ends =
     (let lane = clear_buf lane0
      in case ln_bm lane of
           None \<Rightarrow> lane
         | Some bm \<Rightarrow>
             if \<not> ln_active lane then lane
             else if ln_shardIdx lane \<ge> length shard_starts \<or> ln_shardIdx lane \<ge> length shard_ends
               then lane\<lparr>ln_active := False\<rparr>
             else let start = shard_starts ! ln_shardIdx lane;
                      endv = shard_ends ! ln_shardIdx lane;
                      ok = (\<lambda>v. leaf_ok v kout gcMinPct gcMaxPct substring_set patterns)
                  in if kout = k0
                     then let v0 = (if ln_after lane = UINT64_MAX then start else ln_after lane + 1)
                          in case scan_konly bm ok endv (unat refill_target) v0 [] of
                               (v, buf) \<Rightarrow>
                                 if v = endv then lane\<lparr>ln_buf := buf, ln_active := False\<rparr>
                                 else lane\<lparr>ln_buf := buf, ln_after := v - 1\<rparr>
                     else refill_expand bm ok k0 kout start endv (unat refill_target) lane)"

subsection \<open>Lanes of the window\<close>

text \<open>The mode-dependent fields a lane gets when it starts a shard from its beginning.\<close>

definition start_fresh :: "Ctx \<Rightarrow> LaneRuntime \<Rightarrow> LaneRuntime" where
  "start_fresh cx lane =
     (if cx_kout cx = cx_k0 cx then lane\<lparr>ln_after := UINT64_MAX\<rparr>
      else lane\<lparr>ln_parent_anchor := UINT64_MAX, ln_child_present := False, ln_L := 0,
             ln_left_idx := 0, ln_right_idx := 0\<rparr>)"

text \<open>
  The lambda \<^verbatim>\<open>load_lane_from_state\<close>, on lane \<open>lanes[i]\<close>; it returns its boolean and the
  lane.
\<close>

definition load_lane_from_state :: "Ctx \<Rightarrow> LaneRuntime \<Rightarrow> LaneState \<Rightarrow> bool \<times> LaneRuntime" where
  "load_lane_from_state cx lane0 st =
     (let lane = (free_all lane0)\<lparr>ln_active := False\<rparr>
      in if \<not> st_active st then (False, lane)
         else if unat (st_perm_pos st) \<ge> cx_numShards cx then (False, lane)
         else let shardIdx = cx_perm cx ! unat (st_perm_pos st);
                  lane1 = lane\<lparr>ln_perm_pos := st_perm_pos st, ln_shardIdx := shardIdx\<rparr>
              in case cx_open cx shardIdx of
                   None \<Rightarrow> (False, lane1)
                 | Some bm \<Rightarrow>
                     let lane2 = clear_buf (lane1\<lparr>ln_bm := Some bm, ln_active := True\<rparr>)
                     in (True,
                         if cx_kout cx = cx_k0 cx then lane2\<lparr>ln_after := st_after st\<rparr>
                         else lane2\<lparr>ln_parent_anchor := st_parent_anchor st,
                                ln_child_present := st_child_present st, ln_L := st_L st,
                                ln_left_idx := st_left_idx st, ln_right_idx := st_right_idx st\<rparr>))"

text \<open>
  The lambda \<^verbatim>\<open>try_fill_empty_lane\<close>, on lane \<open>lanes[i]\<close> and \<open>next_perm_pos\<close>. Every path
  through the body of its \<^verbatim>\<open>while (next_perm_pos < numShards)\<close> returns, so the body
  runs at most once.
\<close>

definition try_fill_empty_lane :: "Ctx \<Rightarrow> LaneRuntime \<Rightarrow> u32 \<Rightarrow> bool \<times> LaneRuntime \<times> u32" where
  "try_fill_empty_lane cx lane next_perm_pos =
     (if ln_active lane then (True, lane, next_perm_pos)
      else if unat next_perm_pos < cx_numShards cx
      then let ppos = next_perm_pos;
               shardIdx = cx_perm cx ! unat ppos;
               lane1 = lane\<lparr>ln_perm_pos := ppos, ln_shardIdx := shardIdx\<rparr>
           in case cx_open cx shardIdx of
                None \<Rightarrow> (False, lane1, next_perm_pos + 1)
              | Some bm \<Rightarrow>
                  (True,
                   start_fresh cx ((clear_buf (lane1\<lparr>ln_bm := Some bm\<rparr>))\<lparr>ln_active := True\<rparr>),
                   next_perm_pos + 1)
      else (False, lane, next_perm_pos))"

text \<open>"Load lanes from cursor state": lane \<open>i\<close> of the \<open>window\<close> default-constructed lanes.\<close>

definition load_lanes :: "Ctx \<Rightarrow> LaneState list \<Rightarrow> LaneRuntime list" where
  "load_lanes cx lane_states =
     map (\<lambda>i. if i < length lane_states \<and> st_active (lane_states ! i)
               then snd (load_lane_from_state cx LaneRuntime_init (lane_states ! i))
               else LaneRuntime_init)
       [0..<unat (cx_window cx)]"

text \<open>"Fill any empty lanes initially", lane by lane.\<close>

fun fill_lanes :: "Ctx \<Rightarrow> LaneRuntime list \<Rightarrow> u32 \<Rightarrow> LaneRuntime list \<times> u32" where
  "fill_lanes cx [] npp = ([], npp)"
| "fill_lanes cx (lane # lanes) npp =
     (case (if \<not> ln_active lane then snd (try_fill_empty_lane cx lane npp) else (lane, npp)) of
        (lane1, npp1) \<Rightarrow>
          case fill_lanes cx lanes npp1 of (lanes1, npp2) \<Rightarrow> (lane1 # lanes1, npp2))"

subsection \<open>The main loop\<close>

text \<open>
  What a worker of the refill pool does with lane \<open>i\<close>. The workers take the lanes
  \<open>0, 1, ..., window - 1\<close> from a shared counter; the model runs them one after the
  other in that order, which is the schedule of \<^verbatim>\<open>--threads 1\<close>.
\<close>

definition refill_slot :: "Ctx \<Rightarrow> LaneRuntime \<Rightarrow> u32 \<Rightarrow> LaneRuntime \<times> u32" where
  "refill_slot cx lane npp =
     (if \<not> ln_active lane then (lane, npp)
      else if ln_buf_pos lane < length (ln_buf lane) then (lane, npp)
      else let lane1 = refill_lane lane (cx_k0 cx) (cx_kout cx) (cx_gcMinPct cx) (cx_gcMaxPct cx)
                         (cx_substring_set cx) (cx_patterns cx) (cx_refill_chunk cx)
                         (cx_shard_starts cx) (cx_shard_ends cx)
           in if \<not> ln_active lane1 then snd (try_fill_empty_lane cx (free_all lane1) npp)
              else (lane1, npp))"

fun refill_lanes :: "Ctx \<Rightarrow> LaneRuntime list \<Rightarrow> u32 \<Rightarrow> LaneRuntime list \<times> u32" where
  "refill_lanes cx [] npp = ([], npp)"
| "refill_lanes cx (lane # lanes) npp =
     (case refill_slot cx lane npp of
        (lane1, npp1) \<Rightarrow>
          case refill_lanes cx lanes npp1 of (lanes1, npp2) \<Rightarrow> (lane1 # lanes1, npp2))"

text \<open>
  The burst loop of the emission, \<^verbatim>\<open>while (took < args.burst && out_vals.size() < need)\<close>;
  it returns the lane, \<open>out_vals\<close> and \<open>took\<close>.
\<close>

function drain_burst ::
  "Ctx \<Rightarrow> nat \<Rightarrow> nat \<Rightarrow> LaneRuntime \<Rightarrow> u64 list \<Rightarrow> LaneRuntime \<times> u64 list \<times> nat" where
  "drain_burst cx need took lane out_vals =
     (if took < unat (cx_burst cx) \<and> length out_vals < need
      then if ln_buf_pos lane \<ge> length (ln_buf lane) then (lane, out_vals, took)
           else let v = ln_buf lane ! ln_buf_pos lane;
                    lane1 = lane\<lparr>ln_buf_pos := ln_buf_pos lane + 1\<rparr>;
                    lane2 = (if cx_kout cx = cx_k0 cx then lane1\<lparr>ln_after := v\<rparr> else lane1)
                in drain_burst cx need (took + 1) lane2 (out_vals @ [v])
      else (lane, out_vals, took))"
  by pat_completeness auto

termination drain_burst
  by (relation "measure (\<lambda>(cx, need, took, lane, out_vals). length (ln_buf lane) - ln_buf_pos lane)")
     auto

declare drain_burst.simps [simp del]

text \<open>
  The round-robin emission over the lanes from lane \<open>i\<close> on; it returns the lanes,
  \<open>out_vals\<close> and \<open>emitted_any\<close>.
\<close>

fun emit_lanes ::
  "Ctx \<Rightarrow> nat \<Rightarrow> LaneRuntime list \<Rightarrow> u64 list \<Rightarrow> LaneRuntime list \<times> u64 list \<times> bool" where
  "emit_lanes cx need [] out_vals = ([], out_vals, False)"
| "emit_lanes cx need (lane # lanes) out_vals =
     (if length out_vals < need
      then if \<not> ln_active lane
           then case emit_lanes cx need lanes out_vals of
                  (lanes1, out1, e) \<Rightarrow> (lane # lanes1, out1, e)
           else case drain_burst cx need 0 lane out_vals of
                  (lane1, out1, took) \<Rightarrow>
                    case emit_lanes cx need lanes out1 of
                      (lanes1, out2, e) \<Rightarrow> (lane1 # lanes1, out2, took > 0 \<or> e)
      else (lane # lanes, out_vals, False))"

record MainState =
  ms_lanes :: "LaneRuntime list"
  ms_next_perm_pos :: u32
  ms_out_vals :: "u64 list"

definition any_active :: "LaneRuntime list \<Rightarrow> bool" where
  "any_active lanes = list_ex ln_active lanes"

definition need_of :: "Ctx \<Rightarrow> nat" where
  "need_of cx = unat (cx_limit cx + 1)"

text \<open>One round of the main loop past its two exit tests: refill, then emission.\<close>

definition main_round :: "Ctx \<Rightarrow> MainState \<Rightarrow> MainState \<times> bool" where
  "main_round cx s =
     (case refill_lanes cx (ms_lanes s) (ms_next_perm_pos s) of
        (lanes1, npp1) \<Rightarrow>
          case emit_lanes cx (need_of cx) lanes1 (ms_out_vals s) of
            (lanes2, out2, emitted_any) \<Rightarrow>
              (\<lparr>ms_lanes = lanes2, ms_next_perm_pos = npp1, ms_out_vals = out2\<rparr>,
               \<not> emitted_any \<and> \<not> any_active lanes2))"

text \<open>
  \<^verbatim>\<open>while (out_vals.size() < need)\<close> with its two \<^verbatim>\<open>break\<close>s. The loop is not bounded by
  anything the code checks, so a run that never leaves it has the value \<open>None\<close>.
\<close>

partial_function (option) main_loop :: "Ctx \<Rightarrow> MainState \<Rightarrow> MainState option" where
  "main_loop cx s =
     (if length (ms_out_vals s) < need_of cx
      then if \<not> any_active (ms_lanes s) then Some s
           else if snd (main_round cx s) then Some (fst (main_round cx s))
           else main_loop cx (fst (main_round cx s))
      else Some s)"

declare main_loop.simps [code]

subsection \<open>The page\<close>

text \<open>
  Standard output of a run: the fields of the \<^verbatim>\<open>__META__\<close> line (the count is the length
  of \<open>pg_out_vals\<close>) and the keys of the lines that follow, before \<^verbatim>\<open>decode_kmer\<close>.
\<close>

record Page =
  pg_cursor :: string
  pg_hasMore :: bool
  pg_out_vals :: "u64 list"
  pg_kout :: int

text \<open>The loop that looks for a lane with work left, when the page is not full.\<close>

fun lanes_have_more :: "Ctx \<Rightarrow> LaneRuntime list \<Rightarrow> bool" where
  "lanes_have_more cx [] = False"
| "lanes_have_more cx (lane # lanes) =
     (if \<not> ln_active lane then lanes_have_more cx lanes
      else if ln_buf_pos lane < length (ln_buf lane) then True
      else if cx_kout cx > cx_k0 cx then True
      else lanes_have_more cx lanes)"

definition lane_state_of :: "Ctx \<Rightarrow> LaneRuntime \<Rightarrow> LaneState" where
  "lane_state_of cx lane =
     (if \<not> ln_active lane then LaneState_init\<lparr>st_active := False\<rparr>
      else let st = LaneState_init\<lparr>st_active := True, st_perm_pos := ln_perm_pos lane\<rparr>
           in if cx_kout cx = cx_k0 cx then st\<lparr>st_mode := 0, st_after := ln_after lane\<rparr>
              else st\<lparr>st_mode := 1, st_parent_anchor := ln_parent_anchor lane,
                     st_child_present := ln_child_present lane, st_L := ln_L lane,
                     st_left_idx := ln_left_idx lane, st_right_idx := ln_right_idx lane\<rparr>)"

definition next_cursor :: "Ctx \<Rightarrow> MainState \<Rightarrow> WindowCursor" where
  "next_cursor cx s =
     \<lparr>c_present = False, c_flags = (if cx_random_access cx then 1 else 0),
      c_k0 = word_of_int (cx_k0 cx), c_kout = word_of_int (cx_kout cx),
      c_d = word_of_int (cx_kout cx - cx_k0 cx), c_numShards = of_nat (cx_numShards cx),
      c_seed = cx_seed cx, c_next_perm_pos = ms_next_perm_pos s, c_window = cx_window cx,
      c_burst = cx_burst cx, c_lanes = map (lane_state_of cx) (ms_lanes s)\<rparr>"

text \<open>From the end of the main loop to the output.\<close>

definition finish_page :: "Ctx \<Rightarrow> MainState \<Rightarrow> Page" where
  "finish_page cx s =
     (let limit = unat (cx_limit cx);
          (out_vals, hasMore) =
            (if length (ms_out_vals s) > limit then (take limit (ms_out_vals s), True)
             else (ms_out_vals s,
                   if lanes_have_more cx (ms_lanes s) then True
                   else unat (ms_next_perm_pos s) < cx_numShards cx));
          cursorStr = (if hasMore then make_cursor_bcw2 (next_cursor cx s) else [])
      in \<lparr>pg_cursor = cursorStr, pg_hasMore = hasMore, pg_out_vals = out_vals,
          pg_kout = cx_kout cx\<rparr>)"

text \<open>The scan from the set-up to the page.\<close>

definition run_page :: "Ctx \<Rightarrow> u32 \<Rightarrow> LaneState list \<Rightarrow> Page option" where
  "run_page cx next_perm_pos lane_states =
     (case fill_lanes cx (load_lanes cx lane_states) next_perm_pos of
        (lanes, npp) \<Rightarrow>
          map_option (finish_page cx)
            (main_loop cx \<lparr>ms_lanes = lanes, ms_next_perm_pos = npp, ms_out_vals = []\<rparr>))"

text \<open>
  \<^verbatim>\<open>main\<close>: \<open>Inl e\<close> is \<^verbatim>\<open>return 1\<close> with nothing on standard output, \<open>Inr page\<close> is
  \<^verbatim>\<open>return 0\<close> after the page has been written, \<open>None\<close> a run that does not return.
\<close>

definition stream_main :: "Args \<Rightarrow> Env \<Rightarrow> (stream_error + Page) option" where
  "stream_main args env =
     (case stream_setup args env of
        Inl e \<Rightarrow> Some (Inl e)
      | Inr (cx, next_perm_pos, lane_states) \<Rightarrow>
          map_option Inr (run_page cx next_perm_pos lane_states))"

section \<open>Properties of the windowed streaming search\<close>

subsection \<open>A one-shard database to run the search on\<close>

text \<open>
  One shard of 16-mers with the range \<open>[0, 17)\<close> and nothing present: an empty
  portable payload that deserializes to the empty bitmap.
\<close>

definition sx_file :: "u8 list" where
  "sx_file = kbit_magic @ write_le64_u 17 @ write_le64_u 0 @ write_le64_u 16
     @ write_le64_u 0 @ write_le64_u 2 @ write_le64_u 0 @ replicate 8 0"

definition sx_index :: IndexJson where
  "sx_index = \<lparr>ix_numShards = 1, ix_files = [''shard_0000.kbit''], ix_k = 16,
                ix_total_bits = 17, ix_starts = [0], ix_ends = [17]\<rparr>"

definition sx_env :: Env where
  "sx_env = \<lparr>e_index = Some sx_index, e_gc_hist_k = Some 16,
             e_file = (\<lambda>p. if p = ''shards_16/shard_0000.kbit'' then Some sx_file else None),
             e_deser = (\<lambda>b. Some {}),
             e_rd = (0, 0, 0, 0)\<rparr>"

text \<open>\<^verbatim>\<open>--shards shards_16 --gc-hist gc.json --window 1 --burst 1 --refill_chunk 16 --limit 1\<close>\<close>

definition sx_args :: Args where
  "sx_args = Args_init\<lparr>a_shardsDir := ''shards_16'', a_gcHistPath := ''gc.json'',
      a_window := 1, a_burst := 1, a_refill_chunk := 16, a_limit := 1\<rparr>"

lemma sx_prelude:
  assumes "a_shardsDir args = ''shards_16''" "a_gcHistPath args = ''gc.json''"
    "a_gcMinPct args = 0" "a_gcMaxPct args = 100" "a_limit args \<noteq> 0" "a_construct_k args = - 1"
    "\<not> a_substring_set args"
  shows "stream_prelude args sx_env = Inr (sx_index, 16, 16, [0], [17], [])"
  using assms
  by (simp add: stream_prelude_def parse_args_checks_def sx_env_def sx_index_def Let_def
      build_patterns_def word_less_nat_alt unat_gt_0)

lemma sx_open: "open_shard sx_env ''shards_16'' [''shard_0000.kbit''] 0 = Some {}"
  by (simp add: open_shard_def sx_env_def load_kbit_portable_def sx_file_def kbit_magic_def
      write_le64_u_def read_le64_def upt8 Let_def)

subsection \<open>Resuming from a cursor\<close>

lemma prelude_ignores_seed:
  "stream_prelude (args\<lparr>a_ra_seed_set := b, a_ra_seed := x\<rparr>) (env\<lparr>e_rd := r\<rparr>)
     = stream_prelude args env"
  by (simp add: stream_prelude_def parse_args_checks_def Let_def
      cong del: if_weak_cong option.case_cong_weak sum.case_cong_weak)

lemma open_shard_ignores_rd: "open_shard (env\<lparr>e_rd := r\<rparr>) = open_shard env"
  by (rule ext)+ (simp add: open_shard_def)

lemma initial_seed_no_ra: "\<not> a_random_access args \<Longrightarrow> initial_seed args env = 0"
  by (simp add: initial_seed_def)

lemma setup_ignores_seed:
  assumes "a_cursor_set args"
  shows "stream_setup (args\<lparr>a_ra_seed_set := b, a_ra_seed := x\<rparr>) (env\<lparr>e_rd := r\<rparr>)
     = stream_setup args env"
proof (cases "a_random_access args")
  case True
  with assms show ?thesis
    by (simp add: stream_setup_def prelude_ignores_seed open_shard_ignores_rd Let_def
        split: sum.splits prod.splits parsed.splits)
next
  case False
  with assms show ?thesis
    by (simp add: stream_setup_def prelude_ignores_seed open_shard_ignores_rd Let_def
        initial_seed_no_ra split: sum.splits prod.splits parsed.splits)
qed

lemma setup_error_exits: "stream_setup args env = Inl e \<Longrightarrow> stream_main args env = Some (Inl e)"
  by (simp add: stream_main_def)

lemma setup_resume:
  assumes cs: "a_cursor_set args"
      and pre: "stream_prelude args env = Inr (ix, k0, kout, starts, ends, patterns)"
      and tok: "parse_cursor_bcw2 (a_cursor_token args) = Parsed inc"
  shows "if c_numShards inc = of_nat (ix_numShards ix)
            \<and> c_k0 inc = word_of_int k0 \<and> c_kout inc = word_of_int kout
            \<and> c_window inc = a_window args \<and> c_burst inc = a_burst args
            \<and> (c_flags inc AND 1 \<noteq> 0) = a_random_access args
         then \<exists>cx. stream_setup args env = Inr (cx, c_next_perm_pos inc, c_lanes inc)
                \<and> cx_seed cx = (if a_random_access args
                                 then (if c_seed inc = 0 then 1 else c_seed inc) else 0)
                \<and> cx_perm cx = (if a_random_access args
                                 then build_perm (ix_numShards ix) (cx_seed cx)
                                 else [0..<ix_numShards ix])
         else \<exists>e. stream_setup args env = Inl e
                \<and> e \<in> {CursorMismatchShards, CursorMismatchK, CursorMismatchWindow,
                         CursorMismatchBurst, CursorMismatchRandomAccess}"
  using cs pre tok
  by (auto simp: stream_setup_def Let_def initial_seed_no_ra)

text \<open>
  Claim C7. Take a request that carries a cursor, has passed the checks that come
  before the cursor (\<open>stream_prelude\<close> gives the index, \<open>k0\<close> and \<open>kout\<close>), and whose token
  parses to \<open>inc\<close>. If one of \<open>numShards\<close>, \<open>k0\<close>, \<open>kout\<close>, \<open>window\<close>, \<open>burst\<close> or the
  random-access bit of \<open>inc\<close> differs from the request's value, the run ends with one of
  the cursor-mismatch errors: exit status 1 and no page written. If all of them agree,
  the scan starts from the cursor's \<open>next_perm_pos\<close> and lanes, and under
  \<^verbatim>\<open>--random_access\<close> with the cursor's seed (1 for a stored 0) and the permutation built
  from it. In every case the outcome of the run is the same whatever \<^verbatim>\<open>--ra_seed\<close> the
  client passes and whatever the random device draws.
\<close>

theorem resume_rejects_mismatch_and_takes_cursor_seed:
  assumes "a_cursor_set args"
      and "stream_prelude args env = Inr (ix, k0, kout, starts, ends, patterns)"
      and "parse_cursor_bcw2 (a_cursor_token args) = Parsed inc"
  shows "(if c_numShards inc = of_nat (ix_numShards ix)
             \<and> c_k0 inc = word_of_int k0 \<and> c_kout inc = word_of_int kout
             \<and> c_window inc = a_window args \<and> c_burst inc = a_burst args
             \<and> (c_flags inc AND 1 \<noteq> 0) = a_random_access args
          then \<exists>cx. stream_setup args env = Inr (cx, c_next_perm_pos inc, c_lanes inc)
                 \<and> cx_seed cx = (if a_random_access args
                                  then (if c_seed inc = 0 then 1 else c_seed inc) else 0)
                 \<and> cx_perm cx = (if a_random_access args
                                  then build_perm (ix_numShards ix) (cx_seed cx)
                                  else [0..<ix_numShards ix])
          else \<exists>e. stream_main args env = Some (Inl e)
                 \<and> e \<in> {CursorMismatchShards, CursorMismatchK, CursorMismatchWindow,
                          CursorMismatchBurst, CursorMismatchRandomAccess})
         \<and> stream_main (args\<lparr>a_ra_seed_set := b, a_ra_seed := x\<rparr>) (env\<lparr>e_rd := r\<rparr>)
             = stream_main args env"
proof -
  have "stream_main (args\<lparr>a_ra_seed_set := b, a_ra_seed := x\<rparr>) (env\<lparr>e_rd := r\<rparr>)
          = stream_main args env"
    by (simp add: stream_main_def setup_ignores_seed [OF assms(1)])
  with setup_resume [OF assms] show ?thesis
    by (auto simp: setup_error_exits)
qed

text \<open>
  A resume under \<^verbatim>\<open>--random_access --ra_seed 777\<close> from a cursor that stores seed 12345,
  and the same resume with a mismatching \<^verbatim>\<open>--window 2\<close>.
\<close>

definition rx_cursor :: WindowCursor where
  "rx_cursor = \<lparr>c_present = False, c_flags = 1, c_k0 = 16, c_kout = 16, c_d = 0,
      c_numShards = 1, c_seed = 12345, c_next_perm_pos = 1, c_window = 1, c_burst = 1,
      c_lanes = [LaneState_init]\<rparr>"

definition rx_args :: Args where
  "rx_args = sx_args\<lparr>a_cursor_set := True, a_cursor_token := make_cursor_bcw2 rx_cursor,
      a_random_access := True, a_ra_seed_set := True, a_ra_seed := 777\<rparr>"

lemma rx_parse: "parse_cursor_bcw2 (make_cursor_bcw2 rx_cursor) = Parsed (rx_cursor\<lparr>c_present := True\<rparr>)"
  by (rule parse_cursor_rt) (simp add: valid_cursor_def valid_lane_def rx_cursor_def LaneState_init_def)

theorem resume_rejects_mismatch_and_takes_cursor_seed_witness:
  "(\<exists>cx. stream_setup rx_args sx_env = Inr (cx, 1, [LaneState_init])
        \<and> cx_seed cx = 12345 \<and> cx_perm cx = build_perm 1 12345)
   \<and> stream_main (rx_args\<lparr>a_ra_seed_set := False, a_ra_seed := 999\<rparr>) (sx_env\<lparr>e_rd := (1, 2, 3, 4)\<rparr>)
       = stream_main rx_args sx_env"
proof -
  have cs: "a_cursor_set rx_args" by (simp add: rx_args_def)
  have pre: "stream_prelude rx_args sx_env = Inr (sx_index, 16, 16, [0], [17], [])"
    by (rule sx_prelude) (simp_all add: rx_args_def sx_args_def Args_init_def)
  have tok: "parse_cursor_bcw2 (a_cursor_token rx_args) = Parsed (rx_cursor\<lparr>c_present := True\<rparr>)"
    by (simp add: rx_args_def rx_parse)
  have fields: "a_window rx_args = 1" "a_burst rx_args = 1" "a_random_access rx_args"
    by (simp_all add: rx_args_def sx_args_def Args_init_def)
  show ?thesis
    using resume_rejects_mismatch_and_takes_cursor_seed
      [OF cs pre tok, where b = False and x = 999 and r = "(1, 2, 3, 4)"]
    by (auto simp: fields rx_cursor_def sx_index_def)
qed

subsection \<open>Pagination against a single run\<close>

text \<open>The cursor token of the first page of the run \<open>sx_args\<close> on \<open>sx_env\<close>.\<close>

definition sx_token :: string where
  "sx_token = ''QkNXMgAQEAABAAAAAAAAAAAAAAABAAAAAQABAAEAAQAAAAAAAQAAAAAAAAA''"

text \<open>
  Claim C1 on the one-shard database, every key of \<open>[0, 17)\<close> absent and passing the
  filters, \<^verbatim>\<open>--window 1 --burst 1 --refill_chunk 16\<close>. With \<^verbatim>\<open>--limit 1\<close> the first page is
  key 0 and a cursor; the run resumed from that cursor returns no key and
  \<open>hasMore = false\<close>. The single run with \<^verbatim>\<open>--limit 200\<close> returns the keys 0 to 15. So the
  pages chained to the end hold one key where the single run holds sixteen.
\<close>

theorem pagination_drops_keys:
  "stream_main sx_args sx_env =
     Some (Inr \<lparr>pg_cursor = sx_token, pg_hasMore = True, pg_out_vals = [0], pg_kout = 16\<rparr>)
   \<and> stream_main (sx_args\<lparr>a_cursor_set := True, a_cursor_token := sx_token\<rparr>) sx_env =
     Some (Inr \<lparr>pg_cursor = [], pg_hasMore = False, pg_out_vals = [], pg_kout = 16\<rparr>)
   \<and> stream_main (sx_args\<lparr>a_limit := 200\<rparr>) sx_env =
     Some (Inr \<lparr>pg_cursor = [], pg_hasMore = False,
            pg_out_vals = [0, 1, 2, 3, 4, 5, 6, 7, 8, 9, 10, 11, 12, 13, 14, 15], pg_kout = 16\<rparr>)"
  by code_simp

end
